theory Spec2Isabelle
  imports Main
begin

section \<open>The store: set nodes, domains and restricted variables\<close>

text \<open>
  The header \<^verbatim>\<open>domain_restricted_variable.hpp\<close> defines two class templates that point
  at each other: a \<^verbatim>\<open>VariableDomain\<close> owns a \<^verbatim>\<open>std::set\<close> of values and a
  \<^verbatim>\<open>std::set\<close> of pointers to the variables that depend on it; a
  \<^verbatim>\<open>DomainRestrictedVariable\<close> holds a reference to its domain and a raw pointer
  \<^verbatim>\<open>m_value\<close> to one node of the domain's set.  Both kinds of objects and the set nodes
  are kept in an explicit store, addressed by natural numbers.

  A pointer into a set is one of three things in the source: \<^verbatim>\<open>nullptr\<close> (written by
  \<^verbatim>\<open>clear\<close>, tested by \<^verbatim>\<open>has_value\<close>), the past-the-end position
  \<^verbatim>\<open>m_allowed_values.end()\<close> of some domain (what \<^verbatim>\<open>find\<close> returns on a miss and
  what the one-argument constructor stores), or the position of a node.  The source
  passes set iterators where \<^verbatim>\<open>value_type*\<close> is expected; the model uses one type for
  both, so an iterator and the pointer made from it are the same value.
\<close>

datatype error = UndefinedBehaviour | LogicError

datatype ptr = Null | EndOf nat | Node nat

record VariableDomain =
  m_allowed_values :: "nat list"
  m_managed_variables :: "nat list"

record DomainRestrictedVariable =
  m_domain :: nat
  m_value :: ptr

record 'v world =
  heap :: "nat \<rightharpoonup> 'v"
  next_addr :: nat
  domains :: "nat \<rightharpoonup> VariableDomain"
  variables :: "nat \<rightharpoonup> DomainRestrictedVariable"

text \<open>
  \<^term>\<open>heap\<close> maps the address of every live set node to the value stored in it,
  \<^term>\<open>next_addr\<close> is the address the allocator hands out next, \<^term>\<open>m_allowed_values\<close>
  lists the addresses of a domain's nodes in the order of the set, and
  \<^term>\<open>m_managed_variables\<close> lists the addresses of the subscribed variables.
\<close>

definition empty_world :: "'v world" where
  "empty_world = \<lparr>heap = Map.empty, next_addr = 0, domains = Map.empty, variables = Map.empty\<rparr>"

definition bind_err :: "error + 'a \<Rightarrow> ('a \<Rightarrow> error + 'b) \<Rightarrow> error + 'b" where
  "bind_err m f = (case m of Inl e \<Rightarrow> Inl e | Inr x \<Rightarrow> f x)"

definition get_domain :: "'v world \<Rightarrow> nat \<Rightarrow> error + VariableDomain" where
  "get_domain w d = (case domains w d of None \<Rightarrow> Inl UndefinedBehaviour | Some D \<Rightarrow> Inr D)"

definition get_variable :: "'v world \<Rightarrow> nat \<Rightarrow> error + DomainRestrictedVariable" where
  "get_variable w p = (case variables w p of None \<Rightarrow> Inl UndefinedBehaviour | Some x \<Rightarrow> Inr x)"

definition on_domain :: "nat \<Rightarrow> (VariableDomain \<Rightarrow> VariableDomain) \<Rightarrow> 'v world \<Rightarrow> error + 'v world" where
  "on_domain d f w =
     (case domains w d of
        None \<Rightarrow> Inl UndefinedBehaviour
      | Some D \<Rightarrow> Inr (w\<lparr>domains := (domains w)(d \<mapsto> f D)\<rparr>))"

definition on_variable ::
  "nat \<Rightarrow> (DomainRestrictedVariable \<Rightarrow> DomainRestrictedVariable) \<Rightarrow> 'v world \<Rightarrow> error + 'v world" where
  "on_variable p f w =
     (case variables w p of
        None \<Rightarrow> Inl UndefinedBehaviour
      | Some x \<Rightarrow> Inr (w\<lparr>variables := (variables w)(p \<mapsto> f x)\<rparr>))"

section \<open>The ordered set of allowed values\<close>

text \<open>
  \<^verbatim>\<open>std::set<value_type, Compare>\<close> treats two values as the same key when neither
  precedes the other.  \<^verbatim>\<open>find\<close> returns the node holding an equivalent key,
  \<^verbatim>\<open>insert\<close> allocates a node only when there is none and returns the position of the
  node in either case, \<^verbatim>\<open>erase\<close> frees the node at a position.
\<close>

definition equivalent :: "('v \<Rightarrow> 'v \<Rightarrow> bool) \<Rightarrow> 'v \<Rightarrow> 'v \<Rightarrow> bool" where
  "equivalent cmp x y \<longleftrightarrow> \<not> cmp x y \<and> \<not> cmp y x"

definition node_matches :: "('v \<Rightarrow> 'v \<Rightarrow> bool) \<Rightarrow> (nat \<rightharpoonup> 'v) \<Rightarrow> 'v \<Rightarrow> nat \<Rightarrow> bool" where
  "node_matches cmp h v a = (case h a of None \<Rightarrow> False | Some x \<Rightarrow> equivalent cmp x v)"

definition set_find :: "('v \<Rightarrow> 'v \<Rightarrow> bool) \<Rightarrow> (nat \<rightharpoonup> 'v) \<Rightarrow> nat list \<Rightarrow> 'v \<Rightarrow> nat option" where
  "set_find cmp h nodes v = find (node_matches cmp h v) nodes"

fun place :: "('v \<Rightarrow> 'v \<Rightarrow> bool) \<Rightarrow> (nat \<rightharpoonup> 'v) \<Rightarrow> 'v \<Rightarrow> nat \<Rightarrow> nat list \<Rightarrow> nat list" where
  "place cmp h v a [] = [a]"
| "place cmp h v a (b # bs) =
     (if (case h b of None \<Rightarrow> False | Some x \<Rightarrow> cmp v x) then a # b # bs
      else b # place cmp h v a bs)"

definition set_insert ::
  "('v \<Rightarrow> 'v \<Rightarrow> bool) \<Rightarrow> 'v \<Rightarrow> (nat \<rightharpoonup> 'v) \<times> nat \<times> nat list
     \<Rightarrow> (nat \<times> bool) \<times> (nat \<rightharpoonup> 'v) \<times> nat \<times> nat list" where
  "set_insert cmp v st =
     (case st of (h, n, nodes) \<Rightarrow>
        (case set_find cmp h nodes v of
           Some a \<Rightarrow> ((a, False), (h, n, nodes))
         | None \<Rightarrow> ((n, True), (h(n \<mapsto> v), Suc n, place cmp h v n nodes))))"

definition set_erase :: "nat \<Rightarrow> (nat \<rightharpoonup> 'v) \<times> nat list \<Rightarrow> (nat \<rightharpoonup> 'v) \<times> nat list" where
  "set_erase a st = (case st of (h, nodes) \<Rightarrow> (h(a := None), removeAll a nodes))"

definition find_iter :: "('v \<Rightarrow> 'v \<Rightarrow> bool) \<Rightarrow> (nat \<rightharpoonup> 'v) \<Rightarrow> nat \<Rightarrow> VariableDomain \<Rightarrow> 'v \<Rightarrow> ptr" where
  "find_iter cmp h d D v =
     (case set_find cmp h (m_allowed_values D) v of None \<Rightarrow> EndOf d | Some a \<Rightarrow> Node a)"

section \<open>DomainRestrictedVariable: the methods that touch only the variable\<close>

definition clear :: "DomainRestrictedVariable \<Rightarrow> DomainRestrictedVariable" where
  "clear x = x\<lparr>m_value := Null\<rparr>"

definition has_value :: "DomainRestrictedVariable \<Rightarrow> bool" where
  "has_value x \<longleftrightarrow> m_value x \<noteq> Null"

definition deletionNotice :: "ptr \<Rightarrow> DomainRestrictedVariable \<Rightarrow> DomainRestrictedVariable" where
  "deletionNotice to_delete x = (if m_value x = to_delete then clear x else x)"

definition replacementNotice ::
  "ptr \<Rightarrow> ptr \<Rightarrow> DomainRestrictedVariable \<Rightarrow> DomainRestrictedVariable" where
  "replacementNotice to_replace replacement x =
     (if m_value x = to_replace then x\<lparr>m_value := replacement\<rparr> else x)"

text \<open>
  \<^verbatim>\<open>operator value_type()\<close> dereferences \<^verbatim>\<open>m_value\<close>.  Reading through
  \<^verbatim>\<open>nullptr\<close>, through a past-the-end position or through the address of a freed
  node has no defined result.
\<close>

definition operator_value_type :: "'v world \<Rightarrow> DomainRestrictedVariable \<Rightarrow> error + 'v" where
  "operator_value_type w x =
     (case m_value x of
        Node a \<Rightarrow> (case heap w a of None \<Rightarrow> Inl UndefinedBehaviour | Some v \<Rightarrow> Inr v)
      | _ \<Rightarrow> Inl UndefinedBehaviour)"

text \<open>
  The comparison operators hand both variables to \<^verbatim>\<open>Compare()\<close>, which takes values:
  each operand goes through the conversion above first.
\<close>

definition Compare ::
  "('v \<Rightarrow> 'v \<Rightarrow> bool) \<Rightarrow> 'v world \<Rightarrow> DomainRestrictedVariable \<Rightarrow> DomainRestrictedVariable
     \<Rightarrow> error + bool" where
  "Compare cmp w lhs rhs =
     bind_err (operator_value_type w lhs) (\<lambda>x.
     bind_err (operator_value_type w rhs) (\<lambda>y. Inr (cmp x y)))"

definition operator_eq ::
  "('v \<Rightarrow> 'v \<Rightarrow> bool) \<Rightarrow> 'v world \<Rightarrow> DomainRestrictedVariable \<Rightarrow> DomainRestrictedVariable
     \<Rightarrow> error + bool" where
  "operator_eq cmp w lhs rhs =
     bind_err (Compare cmp w lhs rhs) (\<lambda>a.
     bind_err (Compare cmp w rhs lhs) (\<lambda>b. Inr (a = b)))"

definition operator_ne ::
  "('v \<Rightarrow> 'v \<Rightarrow> bool) \<Rightarrow> 'v world \<Rightarrow> DomainRestrictedVariable \<Rightarrow> DomainRestrictedVariable
     \<Rightarrow> error + bool" where
  "operator_ne cmp w lhs rhs = bind_err (operator_eq cmp w lhs rhs) (\<lambda>a. Inr (\<not> a))"

definition operator_lt ::
  "('v \<Rightarrow> 'v \<Rightarrow> bool) \<Rightarrow> 'v world \<Rightarrow> DomainRestrictedVariable \<Rightarrow> DomainRestrictedVariable
     \<Rightarrow> error + bool" where
  "operator_lt cmp w lhs rhs = Compare cmp w lhs rhs"

definition operator_gt ::
  "('v \<Rightarrow> 'v \<Rightarrow> bool) \<Rightarrow> 'v world \<Rightarrow> DomainRestrictedVariable \<Rightarrow> DomainRestrictedVariable
     \<Rightarrow> error + bool" where
  "operator_gt cmp w lhs rhs = operator_lt cmp w rhs lhs"

definition operator_le ::
  "('v \<Rightarrow> 'v \<Rightarrow> bool) \<Rightarrow> 'v world \<Rightarrow> DomainRestrictedVariable \<Rightarrow> DomainRestrictedVariable
     \<Rightarrow> error + bool" where
  "operator_le cmp w lhs rhs = bind_err (operator_gt cmp w lhs rhs) (\<lambda>a. Inr (\<not> a))"

definition operator_ge ::
  "('v \<Rightarrow> 'v \<Rightarrow> bool) \<Rightarrow> 'v world \<Rightarrow> DomainRestrictedVariable \<Rightarrow> DomainRestrictedVariable
     \<Rightarrow> error + bool" where
  "operator_ge cmp w lhs rhs = bind_err (operator_lt cmp w lhs rhs) (\<lambda>a. Inr (\<not> a))"

section \<open>VariableDomain\<close>

definition subscribeVariable :: "nat \<Rightarrow> VariableDomain \<Rightarrow> VariableDomain" where
  "subscribeVariable p D =
     D\<lparr>m_managed_variables :=
         (if p \<in> set (m_managed_variables D) then m_managed_variables D
          else insort p (m_managed_variables D))\<rparr>"

definition unsubscribeVariable :: "nat \<Rightarrow> VariableDomain \<Rightarrow> VariableDomain" where
  "unsubscribeVariable p D = D\<lparr>m_managed_variables := removeAll p (m_managed_variables D)\<rparr>"

text \<open>
  The two notice loops of the domain call the variable's method on every registered
  pointer.  A registered pointer to a variable that no longer exists would be a call
  through a dangling pointer.
\<close>

fun notify ::
  "(DomainRestrictedVariable \<Rightarrow> DomainRestrictedVariable) \<Rightarrow> nat list
     \<Rightarrow> (nat \<rightharpoonup> DomainRestrictedVariable) \<Rightarrow> error + (nat \<rightharpoonup> DomainRestrictedVariable)" where
  "notify f [] vs = Inr vs"
| "notify f (p # ps) vs =
     (case vs p of
        None \<Rightarrow> Inl UndefinedBehaviour
      | Some x \<Rightarrow> notify f ps (vs(p \<mapsto> f x)))"

definition domain_deletionNotice ::
  "ptr \<Rightarrow> VariableDomain \<Rightarrow> (nat \<rightharpoonup> DomainRestrictedVariable)
     \<Rightarrow> error + (nat \<rightharpoonup> DomainRestrictedVariable)" where
  "domain_deletionNotice to_delete D vs = notify (deletionNotice to_delete) (m_managed_variables D) vs"

definition domain_replacementNotice ::
  "ptr \<Rightarrow> ptr \<Rightarrow> VariableDomain \<Rightarrow> (nat \<rightharpoonup> DomainRestrictedVariable)
     \<Rightarrow> error + (nat \<rightharpoonup> DomainRestrictedVariable)" where
  "domain_replacementNotice to_replace replacement D vs =
     notify (replacementNotice to_replace replacement) (m_managed_variables D) vs"

definition isAllowedValue ::
  "('v \<Rightarrow> 'v \<Rightarrow> bool) \<Rightarrow> (nat \<rightharpoonup> 'v) \<Rightarrow> VariableDomain \<Rightarrow> 'v \<Rightarrow> bool" where
  "isAllowedValue cmp h D v \<longleftrightarrow> set_find cmp h (m_allowed_values D) v \<noteq> None"

definition addAllowedValue ::
  "('v \<Rightarrow> 'v \<Rightarrow> bool) \<Rightarrow> nat \<Rightarrow> 'v \<Rightarrow> 'v world \<Rightarrow> error + (bool \<times> 'v world)" where
  "addAllowedValue cmp d v w =
     (case domains w d of
        None \<Rightarrow> Inl UndefinedBehaviour
      | Some D \<Rightarrow>
          (case set_insert cmp v (heap w, next_addr w, m_allowed_values D) of
             ((pos, second), (h1, n1, nodes1)) \<Rightarrow>
               Inr (second,
                    w\<lparr>heap := h1, next_addr := n1,
                      domains := (domains w)(d \<mapsto> D\<lparr>m_allowed_values := nodes1\<rparr>)\<rparr>)))"

text \<open>
  \<^verbatim>\<open>removeAllowedValue\<close> looks the value up into \<^verbatim>\<open>iter\<close>, but its guard is
  \<^verbatim>\<open>if(value == m_allowed_values.end())\<close>: it compares the \<^emph>\<open>value\<close>, not
  \<^verbatim>\<open>iter\<close>, with the past-the-end position.  That comparison is whatever
  \<^verbatim>\<open>operator==\<close> the value type supplies for a value and a set iterator; it is the
  parameter \<open>eq_iter\<close> here.  Past the guard the code sends the deletion notice for
  \<^verbatim>\<open>iter\<close> and erases \<^verbatim>\<open>iter\<close>; erasing the past-the-end position has no defined
  result.
\<close>

definition removeAllowedValue ::
  "('v \<Rightarrow> ptr \<Rightarrow> bool) \<Rightarrow> ('v \<Rightarrow> 'v \<Rightarrow> bool) \<Rightarrow> nat \<Rightarrow> 'v \<Rightarrow> 'v world
     \<Rightarrow> error + (bool \<times> 'v world)" where
  "removeAllowedValue eq_iter cmp d v w =
     (case domains w d of
        None \<Rightarrow> Inl UndefinedBehaviour
      | Some D \<Rightarrow>
          (let iter = find_iter cmp (heap w) d D v in
           if eq_iter v (EndOf d) then Inr (False, w)
           else
             (case domain_deletionNotice iter D (variables w) of
                Inl e \<Rightarrow> Inl e
              | Inr vs1 \<Rightarrow>
                  (case iter of
                     Node a \<Rightarrow>
                       (case set_erase a (heap w, m_allowed_values D) of
                          (h2, nodes2) \<Rightarrow>
                            Inr (True,
                                 w\<lparr>heap := h2, variables := vs1,
                                   domains := (domains w)(d \<mapsto> D\<lparr>m_allowed_values := nodes2\<rparr>)\<rparr>))
                   | _ \<Rightarrow> Inl UndefinedBehaviour))))"

definition replaceAllowedValue ::
  "('v \<Rightarrow> 'v \<Rightarrow> bool) \<Rightarrow> nat \<Rightarrow> 'v \<Rightarrow> 'v \<Rightarrow> 'v world \<Rightarrow> error + (bool \<times> 'v world)" where
  "replaceAllowedValue cmp d to_replace replacement w =
     (case domains w d of
        None \<Rightarrow> Inl UndefinedBehaviour
      | Some D \<Rightarrow>
          (case set_find cmp (heap w) (m_allowed_values D) to_replace of
             None \<Rightarrow> Inr (False, w)
           | Some iter \<Rightarrow>
               (case set_insert cmp replacement (heap w, next_addr w, m_allowed_values D) of
                  ((pair_first, pair_second), (h1, n1, nodes1)) \<Rightarrow>
                    (case domain_replacementNotice (Node iter) (Node pair_first) D (variables w) of
                       Inl e \<Rightarrow> Inl e
                     | Inr vs1 \<Rightarrow>
                         (case set_erase iter (h1, nodes1) of
                            (h2, nodes2) \<Rightarrow>
                              Inr (True,
                                   w\<lparr>heap := h2, next_addr := n1, variables := vs1,
                                     domains := (domains w)(d \<mapsto> D\<lparr>m_allowed_values := nodes2\<rparr>)\<rparr>))))))"

text \<open>
  The constructor from an initializer list builds the set by inserting the values one
  by one; the destructor throws \<^verbatim>\<open>std::logic_error\<close> while variables are registered
  and otherwise lets the set free its nodes.
\<close>

definition new_domain ::
  "('v \<Rightarrow> 'v \<Rightarrow> bool) \<Rightarrow> nat \<Rightarrow> 'v list \<Rightarrow> 'v world \<Rightarrow> error + 'v world" where
  "new_domain cmp d ilist w =
     (if domains w d \<noteq> None then Inl UndefinedBehaviour
      else
        (case fold (\<lambda>v st. snd (set_insert cmp v st)) ilist (heap w, next_addr w, []) of
           (h1, n1, nodes1) \<Rightarrow>
             Inr (w\<lparr>heap := h1, next_addr := n1,
                    domains := (domains w)(d \<mapsto> \<lparr>m_allowed_values = nodes1, m_managed_variables = []\<rparr>)\<rparr>)))"

definition destroy_domain :: "nat \<Rightarrow> 'v world \<Rightarrow> error + 'v world" where
  "destroy_domain d w =
     (case domains w d of
        None \<Rightarrow> Inl UndefinedBehaviour
      | Some D \<Rightarrow>
          if m_managed_variables D \<noteq> [] then Inl LogicError
          else Inr (w\<lparr>heap := (\<lambda>a. if a \<in> set (m_allowed_values D) then None else heap w a),
                      domains := (domains w)(d := None)\<rparr>))"

text \<open>
  \<^verbatim>\<open>VariableDomain(VariableDomain&& other) = default\<close> moves the two member sets
  into the new object: the new domain owns the nodes and holds the registered pointers.
  The variables are not told: each keeps its reference \<^verbatim>\<open>m_domain\<close> to the old
  object.  The old object stays alive until it is destroyed; a moved-from
  \<^verbatim>\<open>std::set\<close> is left empty by the implementations (the standard only calls its
  state valid), which is what the model gives it.
\<close>

definition move_domain :: "nat \<Rightarrow> nat \<Rightarrow> 'v world \<Rightarrow> error + 'v world" where
  "move_domain this other w =
     (if domains w this \<noteq> None then Inl UndefinedBehaviour
      else
        bind_err (get_domain w other) (\<lambda>D.
        Inr (w\<lparr>domains := (domains w)
               (this \<mapsto> \<lparr>m_allowed_values = m_allowed_values D,
                          m_managed_variables = m_managed_variables D\<rparr>,
                other \<mapsto> \<lparr>m_allowed_values = [], m_managed_variables = []\<rparr>)\<rparr>)))"

section \<open>DomainRestrictedVariable: construction, assignment, destruction\<close>

text \<open>
  Every constructor registers the new object \<^verbatim>\<open>this\<close> with its domain.  The
  two-argument constructor initialises \<^verbatim>\<open>m_value\<close> with \<^verbatim>\<open>domain.find(value)\<close>;
  \<^verbatim>\<open>VariableDomain\<close> has no member of that name, and the lookup is the one the
  value assignment spells out, \<^verbatim>\<open>m_allowed_values.find(value)\<close>.  The one-argument
  constructor stores \<^verbatim>\<open>domain.m_allowed_values.end()\<close>.  An object is constructed at
  an address that holds no live variable.  Of the
  overloads that take a value by rvalue reference only the \<^verbatim>\<open>const&\<close> twins are
  modelled: their bodies differ in \<^verbatim>\<open>std::forward\<close> alone.
\<close>

definition construct_value ::
  "('v \<Rightarrow> 'v \<Rightarrow> bool) \<Rightarrow> nat \<Rightarrow> nat \<Rightarrow> 'v \<Rightarrow> 'v world \<Rightarrow> error + 'v world" where
  "construct_value cmp this d v w =
     (if variables w this \<noteq> None then Inl UndefinedBehaviour
      else
        bind_err (get_domain w d) (\<lambda>D.
        on_domain d (subscribeVariable this)
          (w\<lparr>variables := (variables w)(this \<mapsto>
                \<lparr>m_domain = d, m_value = find_iter cmp (heap w) d D v\<rparr>)\<rparr>)))"

definition construct_empty :: "nat \<Rightarrow> nat \<Rightarrow> 'v world \<Rightarrow> error + 'v world" where
  "construct_empty this d w =
     (if variables w this \<noteq> None then Inl UndefinedBehaviour
      else
        on_domain d (subscribeVariable this)
          (w\<lparr>variables := (variables w)(this \<mapsto> \<lparr>m_domain = d, m_value = EndOf d\<rparr>)\<rparr>))"

definition copy_construct :: "nat \<Rightarrow> nat \<Rightarrow> 'v world \<Rightarrow> error + 'v world" where
  "copy_construct this other w =
     (if variables w this \<noteq> None then Inl UndefinedBehaviour
      else
        bind_err (get_variable w other) (\<lambda>Q.
        on_domain (m_domain Q) (subscribeVariable this)
          (w\<lparr>variables := (variables w)(this \<mapsto>
                \<lparr>m_domain = m_domain Q, m_value = m_value Q\<rparr>)\<rparr>)))"

definition move_construct :: "nat \<Rightarrow> nat \<Rightarrow> 'v world \<Rightarrow> error + 'v world" where
  "move_construct this other w =
     (if variables w this \<noteq> None then Inl UndefinedBehaviour
      else
        bind_err (get_variable w other) (\<lambda>Q.
        bind_err (on_variable other clear
          (w\<lparr>variables := (variables w)(this \<mapsto>
                \<lparr>m_domain = m_domain Q, m_value = m_value Q\<rparr>)\<rparr>)) (\<lambda>w1.
        bind_err (on_domain (m_domain Q) (unsubscribeVariable other) w1) (\<lambda>w2.
        on_domain (m_domain Q) (subscribeVariable this) w2))))"

definition destroy_variable :: "nat \<Rightarrow> 'v world \<Rightarrow> error + 'v world" where
  "destroy_variable this w =
     bind_err (get_variable w this) (\<lambda>P.
     bind_err (on_domain (m_domain P) (unsubscribeVariable this) w) (\<lambda>w1.
     Inr (w1\<lparr>variables := (variables w1)(this := None)\<rparr>)))"

definition copy_assign_statements :: "nat \<Rightarrow> nat \<Rightarrow> 'v world \<Rightarrow> error + 'v world" where
  "copy_assign_statements this other w =
     bind_err (get_variable w this) (\<lambda>P.
     bind_err (on_domain (m_domain P) (unsubscribeVariable this) w) (\<lambda>w1.
     bind_err (get_variable w1 other) (\<lambda>Q.
     bind_err (on_variable this (\<lambda>x. x\<lparr>m_domain := m_domain Q\<rparr>) w1) (\<lambda>w2.
     bind_err (on_domain (m_domain Q) (subscribeVariable this) w2) (\<lambda>w3.
     bind_err (get_variable w3 other) (\<lambda>Q'.
     on_variable this (\<lambda>x. x\<lparr>m_value := m_value Q'\<rparr>) w3))))))"

definition move_assign_statements :: "nat \<Rightarrow> nat \<Rightarrow> 'v world \<Rightarrow> error + 'v world" where
  "move_assign_statements this other w =
     bind_err (get_variable w this) (\<lambda>P.
     bind_err (on_domain (m_domain P) (unsubscribeVariable this) w) (\<lambda>w1.
     bind_err (get_variable w1 other) (\<lambda>Q.
     bind_err (on_domain (m_domain Q) (unsubscribeVariable other) w1) (\<lambda>w2.
     bind_err (on_variable this (\<lambda>x. x\<lparr>m_domain := m_domain Q\<rparr>) w2) (\<lambda>w3.
     bind_err (on_domain (m_domain Q) (subscribeVariable this) w3) (\<lambda>w4.
     bind_err (get_variable w4 other) (\<lambda>Q'.
     bind_err (on_variable this (\<lambda>x. x\<lparr>m_value := m_value Q'\<rparr>) w4) (\<lambda>w5.
     on_variable other clear w5))))))))"

definition assign_value_statements ::
  "('v \<Rightarrow> 'v \<Rightarrow> bool) \<Rightarrow> nat \<Rightarrow> 'v \<Rightarrow> 'v world \<Rightarrow> error + 'v world" where
  "assign_value_statements cmp this v w =
     bind_err (get_variable w this) (\<lambda>P.
     bind_err (get_domain w (m_domain P)) (\<lambda>D.
     on_variable this (\<lambda>x. x\<lparr>m_value := find_iter cmp (heap w) (m_domain P) D v\<rparr>) w))"

definition clear_variable :: "nat \<Rightarrow> 'v world \<Rightarrow> error + 'v world" where
  "clear_variable this w = on_variable this clear w"

text \<open>
  The three assignment operators are declared to return
  \<^verbatim>\<open>DomainRestrictedVariable&\<close> and their bodies end without a \<^verbatim>\<open>return\<close>
  statement.  Control that flows off the end of a function that returns a value has no
  defined behaviour, so a call of any of them runs the statements of the body
  (\<open>copy_assign_statements\<close>, \<open>move_assign_statements\<close>, \<open>assign_value_statements\<close>
  above) and then has no defined result.
\<close>

definition flows_off_the_end :: "'v world \<Rightarrow> error + 'v world" where
  "flows_off_the_end w = Inl UndefinedBehaviour"

definition copy_assign :: "nat \<Rightarrow> nat \<Rightarrow> 'v world \<Rightarrow> error + 'v world" where
  "copy_assign this other w = bind_err (copy_assign_statements this other w) flows_off_the_end"

definition move_assign :: "nat \<Rightarrow> nat \<Rightarrow> 'v world \<Rightarrow> error + 'v world" where
  "move_assign this other w = bind_err (move_assign_statements this other w) flows_off_the_end"

definition assign_value ::
  "('v \<Rightarrow> 'v \<Rightarrow> bool) \<Rightarrow> nat \<Rightarrow> 'v \<Rightarrow> 'v world \<Rightarrow> error + 'v world" where
  "assign_value cmp this v w =
     bind_err (assign_value_statements cmp this v w) flows_off_the_end"

section \<open>Programs: sequences of calls\<close>

datatype 'v operation =
    NewDomain nat "'v list"
  | MoveDomain nat nat
  | DestroyDomain nat
  | AddAllowedValue nat 'v
  | RemoveAllowedValue nat 'v
  | ReplaceAllowedValue nat 'v 'v
  | ConstructValue nat nat 'v
  | ConstructEmpty nat nat
  | CopyConstruct nat nat
  | MoveConstruct nat nat
  | CopyAssign nat nat
  | MoveAssign nat nat
  | AssignValue nat 'v
  | Clear nat
  | DestroyVariable nat

fun apply_operation ::
  "('v \<Rightarrow> ptr \<Rightarrow> bool) \<Rightarrow> ('v \<Rightarrow> 'v \<Rightarrow> bool) \<Rightarrow> 'v operation \<Rightarrow> 'v world \<Rightarrow> error + 'v world" where
  "apply_operation eq_iter cmp (NewDomain d ilist) w = new_domain cmp d ilist w"
| "apply_operation eq_iter cmp (MoveDomain d e) w = move_domain d e w"
| "apply_operation eq_iter cmp (DestroyDomain d) w = destroy_domain d w"
| "apply_operation eq_iter cmp (AddAllowedValue d v) w =
     bind_err (addAllowedValue cmp d v w) (\<lambda>r. Inr (snd r))"
| "apply_operation eq_iter cmp (RemoveAllowedValue d v) w =
     bind_err (removeAllowedValue eq_iter cmp d v w) (\<lambda>r. Inr (snd r))"
| "apply_operation eq_iter cmp (ReplaceAllowedValue d v v') w =
     bind_err (replaceAllowedValue cmp d v v' w) (\<lambda>r. Inr (snd r))"
| "apply_operation eq_iter cmp (ConstructValue p d v) w = construct_value cmp p d v w"
| "apply_operation eq_iter cmp (ConstructEmpty p d) w = construct_empty p d w"
| "apply_operation eq_iter cmp (CopyConstruct p q) w = copy_construct p q w"
| "apply_operation eq_iter cmp (MoveConstruct p q) w = move_construct p q w"
| "apply_operation eq_iter cmp (CopyAssign p q) w = copy_assign p q w"
| "apply_operation eq_iter cmp (MoveAssign p q) w = move_assign p q w"
| "apply_operation eq_iter cmp (AssignValue p v) w = assign_value cmp p v w"
| "apply_operation eq_iter cmp (Clear p) w = clear_variable p w"
| "apply_operation eq_iter cmp (DestroyVariable p) w = destroy_variable p w"

fun run ::
  "('v \<Rightarrow> ptr \<Rightarrow> bool) \<Rightarrow> ('v \<Rightarrow> 'v \<Rightarrow> bool) \<Rightarrow> 'v operation list \<Rightarrow> 'v world \<Rightarrow> error + 'v world" where
  "run eq_iter cmp [] w = Inr w"
| "run eq_iter cmp (x # xs) w =
     (case apply_operation eq_iter cmp x w of
        Inl e \<Rightarrow> Inl e
      | Inr w' \<Rightarrow> run eq_iter cmp xs w')"

fun is_domain_move :: "'v operation \<Rightarrow> bool" where
  "is_domain_move (MoveDomain d e) = True"
| "is_domain_move x = False"

definition moves_no_domain :: "'v operation list \<Rightarrow> bool" where
  "moves_no_domain xs \<longleftrightarrow> list_all (\<lambda>x. \<not> is_domain_move x) xs"

section \<open>Well-formedness\<close>

text \<open>
  What the standard library guarantees and the theorems below assume: the comparison is
  a strict weak ordering; the nodes of a set are live and strictly ascending; the
  allocator hands out an address that is not in use; and every registered pointer is
  the address of a live variable.  Every store that a program without a move of
  a domain reaches from the empty store is well-formed in this sense
  (\<open>reachable_well_formed\<close> below).
\<close>

definition strict_weak_order :: "('v \<Rightarrow> 'v \<Rightarrow> bool) \<Rightarrow> bool" where
  "strict_weak_order cmp \<longleftrightarrow>
     (\<forall>x. \<not> cmp x x) \<and> (\<forall>x y z. cmp x y \<longrightarrow> cmp y z \<longrightarrow> cmp x z)
     \<and> (\<forall>x y z. equivalent cmp x y \<longrightarrow> equivalent cmp y z \<longrightarrow> equivalent cmp x z)"

definition node_less :: "('v \<Rightarrow> 'v \<Rightarrow> bool) \<Rightarrow> (nat \<rightharpoonup> 'v) \<Rightarrow> nat \<Rightarrow> nat \<Rightarrow> bool" where
  "node_less cmp h a b =
     (case h a of None \<Rightarrow> False | Some x \<Rightarrow> (case h b of None \<Rightarrow> False | Some y \<Rightarrow> cmp x y))"

definition set_invariant :: "('v \<Rightarrow> 'v \<Rightarrow> bool) \<Rightarrow> (nat \<rightharpoonup> 'v) \<Rightarrow> nat list \<Rightarrow> bool" where
  "set_invariant cmp h nodes \<longleftrightarrow>
     list_all (\<lambda>a. h a \<noteq> None) nodes \<and> sorted_wrt (node_less cmp h) nodes"

definition well_formed :: "('v \<Rightarrow> 'v \<Rightarrow> bool) \<Rightarrow> 'v world \<Rightarrow> nat \<Rightarrow> VariableDomain \<Rightarrow> bool" where
  "well_formed cmp w d D \<longleftrightarrow>
     domains w d = Some D
     \<and> set_invariant cmp (heap w) (m_allowed_values D)
     \<and> heap w (next_addr w) = None
     \<and> list_all (\<lambda>p. variables w p \<noteq> None) (m_managed_variables D)"

text \<open>
  Well-formedness is an invariant of programs: \<open>store_invariant\<close> collects what every
  operation preserves about the sets (unused addresses above the allocator's mark, each
  set ordered and live, sets of different domains disjoint), and \<open>same_sets\<close> relates
  two stores that differ in variables and registrations only.
\<close>

definition store_invariant :: "('v \<Rightarrow> 'v \<Rightarrow> bool) \<Rightarrow> 'v world \<Rightarrow> bool" where
  "store_invariant cmp w \<longleftrightarrow>
     (\<forall>a. next_addr w \<le> a \<longrightarrow> heap w a = None)
     \<and> (\<forall>d D. domains w d = Some D \<longrightarrow> set_invariant cmp (heap w) (m_allowed_values D))
     \<and> (\<forall>d d' D D'. d \<noteq> d' \<longrightarrow> domains w d = Some D \<longrightarrow> domains w d' = Some D' \<longrightarrow>
           set (m_allowed_values D) \<inter> set (m_allowed_values D') = {})"

definition same_sets :: "'v world \<Rightarrow> 'v world \<Rightarrow> bool" where
  "same_sets w w' \<longleftrightarrow>
     heap w' = heap w \<and> next_addr w' = next_addr w
     \<and> (\<forall>d. map_option m_allowed_values (domains w' d) = map_option m_allowed_values (domains w d))"

section \<open>Predicates of the specification\<close>

text \<open>
  \<open>slot_valid w p\<close> is invariant I1/I3 for the variable at \<open>p\<close>: if it is registered
  with its domain, its pointer is \<^verbatim>\<open>nullptr\<close> or the address of a node of that
  domain's set.  \<open>handed_over\<close> is the state after a move: the destination holds what
  the source held and is registered, the source has no value and is not registered.
  \<open>subscribers_bound\<close> says that every registered pointer is the address of a live
  variable bound to the registering domain.
\<close>

definition slot_valid :: "'v world \<Rightarrow> nat \<Rightarrow> bool" where
  "slot_valid w p =
     (case variables w p of
        None \<Rightarrow> True
      | Some P \<Rightarrow>
          (case domains w (m_domain P) of
             None \<Rightarrow> False
           | Some D \<Rightarrow>
               (if p \<in> set (m_managed_variables D)
                then (case m_value P of
                        Null \<Rightarrow> True
                      | EndOf e \<Rightarrow> False
                      | Node a \<Rightarrow> a \<in> set (m_allowed_values D))
                else True)))"

definition handed_over ::
  "'v world \<Rightarrow> nat \<Rightarrow> nat \<Rightarrow> DomainRestrictedVariable \<Rightarrow> VariableDomain \<Rightarrow> bool" where
  "handed_over w' this other Q D' \<longleftrightarrow>
     domains w' (m_domain Q) = Some D'
     \<and> variables w' this = Some Q
     \<and> (case variables w' other of None \<Rightarrow> False | Some Q' \<Rightarrow> \<not> has_value Q' \<and> Q' = clear Q)
     \<and> other \<notin> set (m_managed_variables D')
     \<and> this \<in> set (m_managed_variables D')"

definition subscribers_bound :: "'v world \<Rightarrow> bool" where
  "subscribers_bound w \<longleftrightarrow>
     (\<forall>d D p. domains w d = Some D \<longrightarrow> p \<in> set (m_managed_variables D) \<longrightarrow>
        (\<exists>P. variables w p = Some P \<and> m_domain P = d))"

definition unsubscribed :: "'v world \<Rightarrow> nat \<Rightarrow> bool" where
  "unsubscribed w p \<longleftrightarrow> (\<forall>d D. domains w d = Some D \<longrightarrow> p \<notin> set (m_managed_variables D))"

section \<open>A concrete store\<close>

text \<open>
  The domain \<open>{1, 2, 3}\<close> at address 0, its nodes at the addresses 0, 1 and 2, and three
  variables: the ones at 0 and 1 bound to the value 2, the one at 2 bound to the value 1.
\<close>

definition example_domain :: VariableDomain where
  "example_domain = \<lparr>m_allowed_values = [0, 1, 2], m_managed_variables = [0, 1, 2]\<rparr>"

definition example_world :: "nat world" where
  "example_world =
     \<lparr>heap = [0 \<mapsto> 1, 1 \<mapsto> 2, 2 \<mapsto> 3], next_addr = 3,
      domains = [0 \<mapsto> example_domain],
      variables = [0 \<mapsto> \<lparr>m_domain = 0, m_value = Node 1\<rparr>,
                   1 \<mapsto> \<lparr>m_domain = 0, m_value = Node 1\<rparr>,
                   2 \<mapsto> \<lparr>m_domain = 0, m_value = Node 0\<rparr>]\<rparr>"

definition example_program :: "nat operation list" where
  "example_program =
     [NewDomain 0 [1, 2, 3], ConstructValue 0 0 2, ConstructValue 1 0 2, ConstructValue 2 0 1]"

definition torn_down_world :: "nat world" where
  "torn_down_world =
     \<lparr>heap = [0 \<mapsto> 1, 1 \<mapsto> 2, 2 \<mapsto> 3], next_addr = 3,
      domains = [0 \<mapsto> \<lparr>m_allowed_values = [0, 1, 2], m_managed_variables = []\<rparr>],
      variables = Map.empty\<rparr>"

definition moved_domain_program :: "nat operation list" where
  "moved_domain_program =
     [NewDomain 0 [1, 2, 3], ConstructValue 0 0 2, MoveDomain 1 0, DestroyVariable 0]"

definition teardown_program :: "nat operation list" where
  "teardown_program = example_program @ [DestroyVariable 0, DestroyVariable 1, DestroyVariable 2]"

section \<open>Auxiliary facts\<close>

lemma notify_result:
  assumes "\<And>x. f (f x) = f x"
  shows "notify f ps vs =
    (if \<forall>p\<in>set ps. vs p \<noteq> None
     then Inr (\<lambda>p. if p \<in> set ps then map_option f (vs p) else vs p)
     else Inl UndefinedBehaviour)"
proof (induction ps arbitrary: vs)
  case Nil
  show ?case by simp
next
  case (Cons p ps)
  show ?case
  proof (cases "vs p")
    case None
    then show ?thesis by auto
  next
    case (Some x)
    have dom: "(\<forall>q\<in>set ps. (vs(p \<mapsto> f x)) q \<noteq> None) \<longleftrightarrow> (\<forall>q\<in>set ps. vs q \<noteq> None)"
      using Some by auto
    show ?thesis
      using Some assms by (auto simp: Cons.IH dom intro!: ext)
  qed
qed

lemma deletionNotice_idem: "deletionNotice t (deletionNotice t x) = deletionNotice t x"
  by (simp add: deletionNotice_def clear_def)

lemma replacementNotice_idem:
  "replacementNotice t r (replacementNotice t r x) = replacementNotice t r x"
  by (simp add: replacementNotice_def)

lemma set_find_Some:
  "set_find cmp h nodes v = Some a \<Longrightarrow> a \<in> set nodes \<and> (\<exists>x. h a = Some x \<and> equivalent cmp x v)"
  unfolding set_find_def
  by (induction nodes) (auto simp: node_matches_def split: option.splits if_splits)

lemma set_find_None:
  "set_find cmp h nodes v = None \<longleftrightarrow> (\<forall>a\<in>set nodes. \<not> node_matches cmp h v a)"
  unfolding set_find_def by (induction nodes) auto

lemma find_unique:
  "b \<in> set xs \<Longrightarrow> P b \<Longrightarrow> (\<forall>c\<in>set xs. P c \<longrightarrow> c = b) \<Longrightarrow> find P xs = Some b"
proof (induction xs)
  case Nil
  then show ?case by simp
next
  case (Cons x xs)
  show ?case
  proof (cases "P x")
    case True
    with Cons.prems(3) have "x = b" by simp
    with True show ?thesis by simp
  next
    case False
    with Cons.prems(1,2) have "b \<in> set xs" by auto
    moreover have "\<forall>c\<in>set xs. P c \<longrightarrow> c = b" using Cons.prems(3) by simp
    ultimately have "find P xs = Some b" using Cons.IH Cons.prems(2) by blast
    with False show ?thesis by simp
  qed
qed

lemma equivalent_sym: "equivalent cmp x y \<Longrightarrow> equivalent cmp y x"
  by (simp add: equivalent_def)

lemma equivalent_trans:
  "strict_weak_order cmp \<Longrightarrow> equivalent cmp x y \<Longrightarrow> equivalent cmp y z \<Longrightarrow> equivalent cmp x z"
proof -
  assume a: "strict_weak_order cmp" and b: "equivalent cmp x y" and c: "equivalent cmp y z"
  from a have "\<forall>x y z. equivalent cmp x y \<longrightarrow> equivalent cmp y z \<longrightarrow> equivalent cmp x z"
    by (simp add: strict_weak_order_def)
  then have "equivalent cmp x y \<longrightarrow> equivalent cmp y z \<longrightarrow> equivalent cmp x z"
    by (elim allE)
  with b c show ?thesis by simp
qed

lemma sorted_wrt_inequivalent:
  assumes "sorted_wrt (node_less cmp h) nodes" "a \<in> set nodes" "b \<in> set nodes" "a \<noteq> b"
    "h a = Some x" "h b = Some y"
  shows "\<not> equivalent cmp x y"
proof -
  from assms(2,3,4) obtain i j where ij: "i < length nodes" "j < length nodes" "nodes ! i = a" "nodes ! j = b" "i \<noteq> j"
    by (auto simp: in_set_conv_nth)
  then consider "i < j" | "j < i" by linarith
  then show ?thesis
  proof cases
    case 1
    then have "node_less cmp h a b" using assms(1) ij by (auto simp: sorted_wrt_iff_nth_less)
    then show ?thesis using assms(5,6) by (simp add: node_less_def equivalent_def)
  next
    case 2
    then have "node_less cmp h b a" using assms(1) ij by (auto simp: sorted_wrt_iff_nth_less)
    then show ?thesis using assms(5,6) by (simp add: node_less_def equivalent_def)
  qed
qed

lemma matches_unique:
  assumes "strict_weak_order cmp" "set_invariant cmp h nodes"
    "a \<in> set nodes" "b \<in> set nodes" "node_matches cmp h v a" "node_matches cmp h v b"
  shows "a = b"
proof (rule ccontr)
  assume ne: "a \<noteq> b"
  from assms(5,6) obtain x y where xy: "h a = Some x" "equivalent cmp x v" "h b = Some y" "equivalent cmp y v"
    by (auto simp: node_matches_def split: option.splits)
  have "equivalent cmp x y"
    using equivalent_trans [OF assms(1) xy(2) equivalent_sym [OF xy(4)]] .
  moreover have "\<not> equivalent cmp x y"
    using sorted_wrt_inequivalent [OF _ assms(3,4) ne xy(1,3)] assms(2) by (simp add: set_invariant_def)
  ultimately show False by simp
qed

lemma set_place: "set (place cmp h v a nodes) = insert a (set nodes)"
  by (induction nodes) auto


lemma equivalent_refl: "strict_weak_order cmp \<Longrightarrow> equivalent cmp x x"
  by (simp add: strict_weak_order_def equivalent_def)

lemma replaceAllowedValue_present:
  assumes "domains w d = Some D"
    and "set_find cmp (heap w) (m_allowed_values D) old = Some a"
    and "list_all (\<lambda>p. variables w p \<noteq> None) (m_managed_variables D)"
    and "set_insert cmp new (heap w, next_addr w, m_allowed_values D) = ((b, s), (h1, n1, nodes1))"
  shows "replaceAllowedValue cmp d old new w =
    Inr (True,
         w\<lparr>heap := h1(a := None), next_addr := n1,
           variables := (\<lambda>p. if p \<in> set (m_managed_variables D)
                              then map_option (replacementNotice (Node a) (Node b)) (variables w p)
                              else variables w p),
           domains := (domains w)(d \<mapsto> D\<lparr>m_allowed_values := removeAll a nodes1\<rparr>)\<rparr>)"
  using assms
  by (simp add: replaceAllowedValue_def domain_replacementNotice_def notify_result
      replacementNotice_idem set_erase_def list_all_iff)

lemma replaceAllowedValue_absent:
  assumes "domains w d = Some D"
    and "set_find cmp (heap w) (m_allowed_values D) old = None"
  shows "replaceAllowedValue cmp d old new w = Inr (False, w)"
  using assms by (simp add: replaceAllowedValue_def)

lemma set_insert_cases:
  assumes "set_insert cmp v (h, n, nodes) = ((b, s), (h1, n1, nodes1))"
  obtains (existing) "set_find cmp h nodes v = Some b" "s = False" "h1 = h" "n1 = n" "nodes1 = nodes"
  | (fresh) "set_find cmp h nodes v = None" "s = True" "b = n" "h1 = h(n \<mapsto> v)" "n1 = Suc n"
      "nodes1 = place cmp h v n nodes"
  using assms by (auto simp: set_insert_def split: option.splits)

lemma node_matches_upd_other:
  "c \<noteq> a \<Longrightarrow> node_matches cmp (h(a := u)) v c = node_matches cmp h v c"
  by (simp add: node_matches_def)

lemma replace_set_facts:
  assumes swo: "strict_weak_order cmp"
    and inv: "set_invariant cmp h nodes"
    and fresh: "h n = None"
    and old: "set_find cmp h nodes old = Some a"
    and ne: "\<not> equivalent cmp old new"
    and ins: "set_insert cmp new (h, n, nodes) = ((b, s), (h1, n1, nodes1))"
  shows "b \<noteq> a"
    and "set_find cmp (h1(a := None)) (removeAll a nodes1) new = Some b"
    and "\<exists>x. (h1(a := None)) b = Some x \<and> equivalent cmp x new"
    and "set_find cmp (h1(a := None)) (removeAll a nodes1) old = None"
proof -
  from set_find_Some [OF old] obtain x where a: "a \<in> set nodes" "h a = Some x" "equivalent cmp x old"
    by blast
  have ma: "node_matches cmp h old a" using a by (simp add: node_matches_def)
  have an: "a \<noteq> n" using a(2) fresh by auto
  have nn: "n \<notin> set nodes" using inv fresh by (auto simp: set_invariant_def list_all_iff)
  have old_new: "\<And>c. node_matches cmp h old c \<Longrightarrow> node_matches cmp h new c \<Longrightarrow> False"
  proof -
    fix c assume "node_matches cmp h old c" "node_matches cmp h new c"
    then obtain y where "equivalent cmp y old" "equivalent cmp y new"
      by (auto simp: node_matches_def split: option.splits)
    then have "equivalent cmp old new"
      by (meson equivalent_trans [OF swo] equivalent_sym)
    with ne show False by simp
  qed
  have all: "b \<noteq> a \<and> b \<in> set nodes1 \<and> node_matches cmp h1 new b
      \<and> (\<forall>c\<in>set nodes1. c \<noteq> a \<longrightarrow> c \<noteq> b \<longrightarrow> \<not> node_matches cmp h1 new c)
      \<and> (\<forall>c\<in>set nodes1. c \<noteq> a \<longrightarrow> \<not> node_matches cmp h1 old c)"
  using ins
  proof (cases rule: set_insert_cases)
    case existing
    from set_find_Some [OF existing(1)] obtain y where b: "b \<in> set nodes" "h b = Some y" "equivalent cmp y new"
      by blast
    have mb: "node_matches cmp h new b" using b by (simp add: node_matches_def)
    have "b \<noteq> a" using old_new ma mb by blast
    moreover have "\<forall>c\<in>set nodes. c \<noteq> b \<longrightarrow> \<not> node_matches cmp h new c"
      by (meson matches_unique [OF swo inv _ b(1) _ mb])
    moreover have "\<forall>c\<in>set nodes. c \<noteq> a \<longrightarrow> \<not> node_matches cmp h old c"
      by (meson matches_unique [OF swo inv _ a(1) _ ma])
    ultimately show ?thesis using existing b(1) mb by simp
  next
    case fresh
    have none: "\<forall>c\<in>set nodes. \<not> node_matches cmp h new c"
      using fresh(1) by (simp add: set_find_None)
    have "b \<noteq> a" using fresh(3) an by simp
    moreover have "node_matches cmp h1 new b"
      using fresh(3,4) equivalent_refl [OF swo] by (simp add: node_matches_def)
    moreover have "\<forall>c\<in>set nodes. node_matches cmp h1 v c = node_matches cmp h v c" for v
      using nn fresh(4) by (auto simp: node_matches_def)
    moreover have "\<not> node_matches cmp h1 old n"
      using fresh(4) ne equivalent_sym [of cmp new old] by (auto simp: node_matches_def)
    moreover have "\<forall>c\<in>set nodes. c \<noteq> a \<longrightarrow> \<not> node_matches cmp h old c"
      by (meson matches_unique [OF swo inv _ a(1) _ ma])
    ultimately show ?thesis using fresh(3,6) none by (simp add: set_place)
  qed
  show "b \<noteq> a" using all by simp
  show "set_find cmp (h1(a := None)) (removeAll a nodes1) new = Some b"
    unfolding set_find_def
  proof (rule find_unique)
    show "b \<in> set (removeAll a nodes1)" using all by simp
    show "node_matches cmp (h1(a := None)) new b" using all by (simp add: node_matches_upd_other)
    show "\<forall>c\<in>set (removeAll a nodes1). node_matches cmp (h1(a := None)) new c \<longrightarrow> c = b"
      using all by (auto simp: node_matches_upd_other)
  qed
  show "\<exists>x. (h1(a := None)) b = Some x \<and> equivalent cmp x new"
    using all by (auto simp: node_matches_def split: option.splits)
  show "set_find cmp (h1(a := None)) (removeAll a nodes1) old = None"
    using all by (auto simp: set_find_None node_matches_upd_other)
qed


section \<open>Facts about the concrete store\<close>

lemma example_world_reachable:
  "run eq_iter (<) example_program empty_world = Inr example_world"
  by (simp add: example_program_def example_world_def example_domain_def empty_world_def
      new_domain_def set_insert_def set_find_def node_matches_def equivalent_def
      construct_value_def bind_err_def get_domain_def on_domain_def find_iter_def
      subscribeVariable_def eval_nat_numeral)

lemma strict_weak_order_nat: "strict_weak_order ((<) :: nat \<Rightarrow> nat \<Rightarrow> bool)"
  by (auto simp: strict_weak_order_def equivalent_def)

lemma example_world_well_formed: "well_formed (<) example_world 0 example_domain"
  by (simp add: well_formed_def example_world_def example_domain_def set_invariant_def
      node_less_def)

section \<open>Replacement by an equivalent value\<close>

lemma example_find_2:
  "set_find (<) (heap example_world) (m_allowed_values example_domain) 2 = Some 1"
  by (simp add: set_find_def node_matches_def equivalent_def example_world_def example_domain_def)

lemma replaceAllowedValue_same_key:
  assumes swo: "strict_weak_order cmp"
    and wf: "well_formed cmp w d D"
    and old: "set_find cmp (heap w) (m_allowed_values D) x = Some a"
  shows "replaceAllowedValue cmp d x x w =
    Inr (True,
         w\<lparr>heap := (heap w)(a := None), next_addr := next_addr w,
           variables := (\<lambda>p. if p \<in> set (m_managed_variables D)
                              then map_option (replacementNotice (Node a) (Node a)) (variables w p)
                              else variables w p),
           domains := (domains w)(d \<mapsto> D\<lparr>m_allowed_values := removeAll a (m_allowed_values D)\<rparr>)\<rparr>)"
proof -
  have dom: "domains w d = Some D"
    and live: "list_all (\<lambda>p. variables w p \<noteq> None) (m_managed_variables D)"
    using wf by (simp_all add: well_formed_def)
  have ins: "set_insert cmp x (heap w, next_addr w, m_allowed_values D) =
      ((a, False), (heap w, next_addr w, m_allowed_values D))"
    using old by (simp add: set_insert_def)
  show ?thesis by (rule replaceAllowedValue_present [OF dom old live ins])
qed

lemma replacementNotice_same: "replacementNotice t t P = P"
  by (simp add: replacementNotice_def)

lemma find_after_erase:
  assumes swo: "strict_weak_order cmp"
    and inv: "set_invariant cmp h nodes"
    and old: "set_find cmp h nodes x = Some a"
  shows "set_find cmp (h(a := None)) (removeAll a nodes) x = None"
proof -
  from set_find_Some [OF old] have a: "a \<in> set nodes" "node_matches cmp h x a"
    by (auto simp: node_matches_def)
  have "\<forall>c\<in>set nodes. c \<noteq> a \<longrightarrow> \<not> node_matches cmp h x c"
    by (meson matches_unique [OF swo inv _ a(1) _ a(2)])
  then show ?thesis by (auto simp: set_find_None node_matches_upd_other)
qed


section \<open>The frame of the notices\<close>

lemma notify_Inr:
  assumes "\<And>x. f (f x) = f x" and "notify f ps vs = Inr vs'"
  shows "vs' = (\<lambda>p. if p \<in> set ps then map_option f (vs p) else vs p)"
  using assms(2) unfolding notify_result [of f, OF assms(1)] by (simp split: if_splits)

lemma deletionNotice_other: "m_value P \<noteq> t \<Longrightarrow> deletionNotice t P = P"
  by (simp add: deletionNotice_def)

lemma replacementNotice_other: "m_value P \<noteq> t \<Longrightarrow> replacementNotice t r P = P"
  by (simp add: replacementNotice_def)

lemma remove_frame:
  assumes dom: "domains w d = Some D"
    and P: "variables w p = Some P"
    and c: "m_value P = Node c" and x: "heap w c = Some x"
    and res: "removeAllowedValue eq_iter cmp d v w = Inr (r, w')"
    and other: "find_iter cmp (heap w) d D v \<noteq> Node c"
  shows "variables w' p = Some P \<and> operator_value_type w' P = Inr x"
proof (cases "eq_iter v (EndOf d)")
  case True
  then have "w' = w" using res dom by (simp add: removeAllowedValue_def)
  then show ?thesis using P c x by (simp add: operator_value_type_def)
next
  case False
  from res dom False obtain vs1 a where
    n: "domain_deletionNotice (find_iter cmp (heap w) d D v) D (variables w) = Inr vs1"
    and it: "find_iter cmp (heap w) d D v = Node a"
    and w': "w' = w\<lparr>heap := (heap w)(a := None), variables := vs1,
        domains := (domains w)(d \<mapsto> D\<lparr>m_allowed_values := removeAll a (m_allowed_values D)\<rparr>)\<rparr>"
    by (auto simp: removeAllowedValue_def set_erase_def Let_def split: sum.splits ptr.splits)
  have vs1: "vs1 p = Some P"
    using notify_Inr [OF deletionNotice_idem n [unfolded domain_deletionNotice_def]] P c other
    by (simp add: deletionNotice_other)
  have "a \<noteq> c" using it other by simp
  then show ?thesis using vs1 w' c x by (simp add: operator_value_type_def)
qed

lemma replace_frame:
  assumes dom: "domains w d = Some D"
    and fresh: "heap w (next_addr w) = None"
    and P: "variables w p = Some P"
    and c: "m_value P = Node c" and x: "heap w c = Some x"
    and res: "replaceAllowedValue cmp d v v' w = Inr (r, w')"
    and other: "find_iter cmp (heap w) d D v \<noteq> Node c"
  shows "variables w' p = Some P \<and> operator_value_type w' P = Inr x"
proof (cases "set_find cmp (heap w) (m_allowed_values D) v")
  case None
  then have "w' = w" using res dom by (simp add: replaceAllowedValue_def)
  then show ?thesis using P c x by (simp add: operator_value_type_def)
next
  case (Some a)
  obtain b s h1 n1 nodes1 where
    ins: "set_insert cmp v' (heap w, next_addr w, m_allowed_values D) = ((b, s), (h1, n1, nodes1))"
    by (metis prod_cases3 surj_pair)
  from res dom Some ins obtain vs1 where
    n: "domain_replacementNotice (Node a) (Node b) D (variables w) = Inr vs1"
    and w': "w' = w\<lparr>heap := h1(a := None), next_addr := n1, variables := vs1,
        domains := (domains w)(d \<mapsto> D\<lparr>m_allowed_values := removeAll a nodes1\<rparr>)\<rparr>"
    by (auto simp: replaceAllowedValue_def set_erase_def split: sum.splits)
  have ac: "a \<noteq> c" using Some other by (simp add: find_iter_def)
  have vs1: "vs1 p = Some P"
    using notify_Inr [OF replacementNotice_idem n [unfolded domain_replacementNotice_def]] P c ac
    by (simp add: replacementNotice_other)
  have "h1 c = Some x"
    using ins fresh x by (cases rule: set_insert_cases) auto
  then show ?thesis using vs1 w' c ac by (simp add: operator_value_type_def)
qed


section \<open>The effect of a move\<close>

lemma same_fields: "\<lparr>m_domain = m_domain Q, m_value = m_value Q\<rparr> = Q"
  by simp

lemma overwrite_fields:
  "(P :: DomainRestrictedVariable)\<lparr>m_domain := m_domain Q, m_value := m_value Q\<rparr> = Q"
  by (cases P, cases Q) simp

lemma overwrite_value:
  "m_domain Q = m_domain P \<Longrightarrow> (P :: DomainRestrictedVariable)\<lparr>m_value := m_value Q\<rparr> = Q"
  by (cases P, cases Q) simp

lemma set_subscribe: "set (m_managed_variables (subscribeVariable p D)) = insert p (set (m_managed_variables D))"
  by (auto simp: subscribeVariable_def set_insort_key)

lemma set_unsubscribe: "set (m_managed_variables (unsubscribeVariable p D)) = set (m_managed_variables D) - {p}"
  by (auto simp: unsubscribeVariable_def)

lemma move_construct_result:
  assumes "variables w this = None" "variables w other = Some Q" "domains w (m_domain Q) = Some D"
  shows "move_construct this other w =
    Inr (w\<lparr>variables := (variables w)(this \<mapsto> Q, other \<mapsto> clear Q),
           domains := (domains w)(m_domain Q \<mapsto> subscribeVariable this (unsubscribeVariable other D))\<rparr>)"
proof -
  have "this \<noteq> other" using assms(1,2) by auto
  then show ?thesis
    using assms
    by (simp add: move_construct_def bind_err_def get_variable_def on_variable_def on_domain_def
        same_fields)
qed

lemma move_assign_statements_result:
  assumes "this \<noteq> other" "variables w this = Some P" "variables w other = Some Q"
    "domains w (m_domain P) = Some DP" "domains w (m_domain Q) = Some DQ"
  shows "move_assign_statements this other w =
    Inr (w\<lparr>variables := (variables w)(this \<mapsto> Q, other \<mapsto> clear Q),
           domains := (domains w)(m_domain P \<mapsto> unsubscribeVariable this DP,
             m_domain Q \<mapsto> subscribeVariable this (unsubscribeVariable other
                (if m_domain Q = m_domain P then unsubscribeVariable this DP else DQ)))\<rparr>)"
  using assms
  by (auto simp: move_assign_statements_def bind_err_def get_variable_def on_variable_def on_domain_def
      overwrite_fields overwrite_value)

lemma move_assign_statements_self:
  assumes "variables w p = Some P" "domains w (m_domain P) = Some D"
  shows "move_assign_statements p p w =
    Inr (w\<lparr>variables := (variables w)(p \<mapsto> clear P),
           domains := (domains w)(m_domain P \<mapsto>
             subscribeVariable p (unsubscribeVariable p (unsubscribeVariable p D)))\<rparr>)"
  using assms
  by (simp add: move_assign_statements_def bind_err_def get_variable_def on_variable_def on_domain_def
      clear_def)

lemma handed_over_notices:
  assumes h: "handed_over w' this other Q D'"
  shows "(\<forall>t vs'. domain_deletionNotice t D' (variables w') = Inr vs' \<longrightarrow>
            vs' this = Some (deletionNotice t Q) \<and> vs' other = variables w' other)
    \<and> (\<forall>t r vs'. domain_replacementNotice t r D' (variables w') = Inr vs' \<longrightarrow>
            vs' this = Some (replacementNotice t r Q) \<and> vs' other = variables w' other)"
proof (intro conjI allI impI)
  fix t vs' assume "domain_deletionNotice t D' (variables w') = Inr vs'"
  from notify_Inr [OF deletionNotice_idem this [unfolded domain_deletionNotice_def]] h
  show "vs' this = Some (deletionNotice t Q)" "vs' other = variables w' other"
    by (simp_all add: handed_over_def)
next
  fix t r vs' assume "domain_replacementNotice t r D' (variables w') = Inr vs'"
  from notify_Inr [OF replacementNotice_idem this [unfolded domain_replacementNotice_def]] h
  show "vs' this = Some (replacementNotice t r Q)" "vs' other = variables w' other"
    by (simp_all add: handed_over_def)
qed

lemma move_construct_hands_over:
  assumes "variables w this = None" "variables w other = Some Q" "domains w (m_domain Q) = Some D"
  shows "\<exists>w' D'. move_construct this other w = Inr w' \<and> handed_over w' this other Q D'"
proof -
  have "this \<noteq> other" using assms(1,2) by auto
  then show ?thesis
    unfolding move_construct_result [OF assms]
    by (simp add: handed_over_def set_subscribe set_unsubscribe has_value_def clear_def)
qed

lemma move_assign_statements_hands_over:
  assumes "this \<noteq> other" "variables w this = Some P" "variables w other = Some Q"
    "domains w (m_domain P) = Some DP" "domains w (m_domain Q) = Some DQ"
  shows "\<exists>w' D'. move_assign_statements this other w = Inr w' \<and> handed_over w' this other Q D'"
  unfolding move_assign_statements_result [OF assms]
  using assms(1)
  by (simp add: handed_over_def set_subscribe set_unsubscribe has_value_def clear_def)


section \<open>Registered pointers are live variables of the domain\<close>

lemma mem_subscribe:
  "q \<in> set (m_managed_variables (subscribeVariable p D)) \<longleftrightarrow> q = p \<or> q \<in> set (m_managed_variables D)"
  by (auto simp: subscribeVariable_def set_insort_key)

lemma mem_unsubscribe:
  "q \<in> set (m_managed_variables (unsubscribeVariable p D)) \<longleftrightarrow> q \<noteq> p \<and> q \<in> set (m_managed_variables D)"
  by (auto simp: unsubscribeVariable_def)

lemma bind_err_Inr: "bind_err m f = Inr y \<longleftrightarrow> (\<exists>x. m = Inr x \<and> f x = Inr y)"
  by (cases m) (auto simp: bind_err_def)

lemma get_variable_Inr: "get_variable w p = Inr P \<longleftrightarrow> variables w p = Some P"
  by (auto simp: get_variable_def split: option.splits)

lemma get_domain_Inr: "get_domain w d = Inr D \<longleftrightarrow> domains w d = Some D"
  by (auto simp: get_domain_def split: option.splits)

lemma on_domain_Inr:
  "on_domain d f w = Inr w' \<longleftrightarrow> (\<exists>D. domains w d = Some D \<and> w' = w\<lparr>domains := (domains w)(d \<mapsto> f D)\<rparr>)"
  by (auto simp: on_domain_def split: option.splits)

lemma on_variable_Inr:
  "on_variable p f w = Inr w' \<longleftrightarrow> (\<exists>x. variables w p = Some x \<and> w' = w\<lparr>variables := (variables w)(p \<mapsto> f x)\<rparr>)"
  by (auto simp: on_variable_def split: option.splits)

lemmas Inr_simps = bind_err_Inr get_variable_Inr get_domain_Inr on_domain_Inr on_variable_Inr
  mem_subscribe mem_unsubscribe

lemma bound_empty: "subscribers_bound empty_world"
  by (simp add: subscribers_bound_def empty_world_def)

lemma bound_construct_value:
  "subscribers_bound w \<Longrightarrow> construct_value cmp this d v w = Inr w' \<Longrightarrow> subscribers_bound w'"
  unfolding subscribers_bound_def construct_value_def
  by (auto simp: Inr_simps split: if_splits) (metis option.distinct(1) option.inject)+

lemma bound_construct_empty:
  "subscribers_bound w \<Longrightarrow> construct_empty this d w = Inr w' \<Longrightarrow> subscribers_bound w'"
  unfolding subscribers_bound_def construct_empty_def
  by (auto simp: Inr_simps split: if_splits) (metis option.distinct(1) option.inject)+

lemma bound_copy_construct:
  "subscribers_bound w \<Longrightarrow> copy_construct this other w = Inr w' \<Longrightarrow> subscribers_bound w'"
  unfolding subscribers_bound_def copy_construct_def
  by (auto simp: Inr_simps split: if_splits) (metis option.distinct(1) option.inject)+

lemma bound_move_construct:
  "subscribers_bound w \<Longrightarrow> move_construct this other w = Inr w' \<Longrightarrow> subscribers_bound w'"
  unfolding subscribers_bound_def move_construct_def
  by (auto simp: Inr_simps clear_def split: if_splits) (metis option.distinct(1) option.inject)+

lemma bound_destroy_variable:
  "subscribers_bound w \<Longrightarrow> destroy_variable this w = Inr w' \<Longrightarrow> subscribers_bound w'"
  unfolding subscribers_bound_def destroy_variable_def
  by (auto simp: Inr_simps split: if_splits) (metis option.distinct(1) option.inject)+

lemma bound_clear_variable:
  "subscribers_bound w \<Longrightarrow> clear_variable this w = Inr w' \<Longrightarrow> subscribers_bound w'"
  unfolding subscribers_bound_def clear_variable_def
  by (auto simp: Inr_simps clear_def split: if_splits) (metis option.distinct(1) option.inject)+

lemma bound_assign_value_statements:
  "subscribers_bound w \<Longrightarrow> assign_value_statements cmp this v w = Inr w' \<Longrightarrow> subscribers_bound w'"
  unfolding subscribers_bound_def assign_value_statements_def
  by (auto simp: Inr_simps split: if_splits) (metis option.distinct(1) option.inject)+



lemma bound_unsubscribe:
  assumes "subscribers_bound w" "on_domain d (unsubscribeVariable q) w = Inr w'"
  shows "subscribers_bound w'" "variables w' = variables w"
    "unsubscribed w p \<Longrightarrow> unsubscribed w' p"
  using assms unfolding subscribers_bound_def unsubscribed_def
  by (auto simp: on_domain_Inr mem_subscribe mem_unsubscribe split: if_splits)

lemma own_unsubscribe:
  assumes "subscribers_bound w" "variables w p = Some P"
    "on_domain (m_domain P) (unsubscribeVariable p) w = Inr w'"
  shows "unsubscribed w' p"
  using assms unfolding subscribers_bound_def unsubscribed_def
  by (auto simp: on_domain_Inr mem_subscribe mem_unsubscribe split: if_splits) (metis option.inject)

lemma bound_update_unsubscribed:
  assumes "subscribers_bound w" "unsubscribed w p" "on_variable p f w = Inr w'"
  shows "subscribers_bound w'" "unsubscribed w' p" "domains w' = domains w"
  using assms unfolding subscribers_bound_def unsubscribed_def
  by (auto simp: on_variable_Inr split: if_splits)

lemma bound_subscribe:
  assumes "subscribers_bound w" "variables w p = Some P"
    "on_domain (m_domain P) (subscribeVariable p) w = Inr w'"
  shows "subscribers_bound w'" "variables w' = variables w"
  using assms unfolding subscribers_bound_def
  by (auto simp: on_domain_Inr mem_subscribe mem_unsubscribe split: if_splits)

lemma bound_update_value:
  assumes "subscribers_bound w" "\<And>x. m_domain (f x) = m_domain x" "on_variable p f w = Inr w'"
  shows "subscribers_bound w'"
  using assms unfolding subscribers_bound_def
  by (auto simp: on_variable_Inr split: if_splits) (metis option.inject)

lemma bound_copy_assign_statements:
  assumes b: "subscribers_bound w" and r: "copy_assign_statements this other w = Inr w'"
  shows "subscribers_bound w'"
proof -
  from r obtain P w1 Q w2 w3 Q' where
    P: "variables w this = Some P"
    and s1: "on_domain (m_domain P) (unsubscribeVariable this) w = Inr w1"
    and Q: "variables w1 other = Some Q"
    and s2: "on_variable this (\<lambda>x. x\<lparr>m_domain := m_domain Q\<rparr>) w1 = Inr w2"
    and s3: "on_domain (m_domain Q) (subscribeVariable this) w2 = Inr w3"
    and Q': "variables w3 other = Some Q'"
    and s4: "on_variable this (\<lambda>x. x\<lparr>m_value := m_value Q'\<rparr>) w3 = Inr w'"
    unfolding copy_assign_statements_def bind_err_Inr get_variable_Inr by blast
  note b1 = bound_unsubscribe(1) [OF b s1]
  have u1: "unsubscribed w1 this" by (rule own_unsubscribe [OF b P s1])
  note b2 = bound_update_unsubscribed(1) [OF b1 u1 s2]
  from s2 obtain P2 where P2: "variables w2 this = Some P2" "m_domain P2 = m_domain Q"
    by (auto simp: on_variable_Inr)
  note b3 = bound_subscribe(1) [OF b2 P2(1) s3 [folded P2(2)]]
  show ?thesis by (rule bound_update_value [OF b3 _ s4]) simp
qed

lemma bound_move_assign_statements:
  assumes b: "subscribers_bound w" and r: "move_assign_statements this other w = Inr w'"
  shows "subscribers_bound w'"
proof -
  from r obtain P w1 Q w2 w3 w4 Q' w5 where
    P: "variables w this = Some P"
    and s1: "on_domain (m_domain P) (unsubscribeVariable this) w = Inr w1"
    and Q: "variables w1 other = Some Q"
    and s2: "on_domain (m_domain Q) (unsubscribeVariable other) w1 = Inr w2"
    and s3: "on_variable this (\<lambda>x. x\<lparr>m_domain := m_domain Q\<rparr>) w2 = Inr w3"
    and s4: "on_domain (m_domain Q) (subscribeVariable this) w3 = Inr w4"
    and Q': "variables w4 other = Some Q'"
    and s5: "on_variable this (\<lambda>x. x\<lparr>m_value := m_value Q'\<rparr>) w4 = Inr w5"
    and s6: "on_variable other clear w5 = Inr w'"
    unfolding move_assign_statements_def bind_err_Inr get_variable_Inr by blast
  note b1 = bound_unsubscribe(1) [OF b s1]
  have u1: "unsubscribed w1 this" by (rule own_unsubscribe [OF b P s1])
  note b2 = bound_unsubscribe(1) [OF b1 s2]
  have u2: "unsubscribed w2 this" by (rule bound_unsubscribe(3) [OF b1 s2 u1])
  note b3 = bound_update_unsubscribed(1) [OF b2 u2 s3]
  from s3 obtain P3 where P3: "variables w3 this = Some P3" "m_domain P3 = m_domain Q"
    by (auto simp: on_variable_Inr)
  note b4 = bound_subscribe(1) [OF b3 P3(1) s4 [folded P3(2)]]
  have b5: "subscribers_bound w5" by (rule bound_update_value [OF b4 _ s5]) simp
  show ?thesis by (rule bound_update_value [OF b5 _ s6]) (simp add: clear_def)
qed

lemma bound_new_domain:
  "subscribers_bound w \<Longrightarrow> new_domain cmp d ilist w = Inr w' \<Longrightarrow> subscribers_bound w'"
  unfolding subscribers_bound_def new_domain_def
  by (auto split: if_splits prod.splits)

lemma bound_destroy_domain:
  "subscribers_bound w \<Longrightarrow> destroy_domain d w = Inr w' \<Longrightarrow> subscribers_bound w'"
  unfolding subscribers_bound_def destroy_domain_def
  by (auto split: if_splits option.splits)

lemma bound_addAllowedValue:
  "subscribers_bound w \<Longrightarrow> addAllowedValue cmp d v w = Inr (r, w') \<Longrightarrow> subscribers_bound w'"
  unfolding subscribers_bound_def addAllowedValue_def
  by (auto split: if_splits option.splits prod.splits)

lemma bound_notified:
  assumes b: "subscribers_bound w"
    and f: "\<And>x. f (f x) = f x" "\<And>x. m_domain (f x) = m_domain x"
    and n: "notify f ps (variables w) = Inr vs1"
    and dom: "\<And>e. domains w' e \<noteq> None \<Longrightarrow>
        (\<exists>D D'. domains w e = Some D \<and> domains w' e = Some D'
           \<and> m_managed_variables D' = m_managed_variables D)"
    and vs: "variables w' = vs1"
  shows "subscribers_bound w'"
  unfolding subscribers_bound_def
proof (intro allI impI)
  fix e D' p
  assume D': "domains w' e = Some D'" and p: "p \<in> set (m_managed_variables D')"
  from dom [of e] D' obtain D where D: "domains w e = Some D"
    "m_managed_variables D' = m_managed_variables D" by auto
  from b D p obtain P where P: "variables w p = Some P" "m_domain P = e"
    unfolding subscribers_bound_def by (metis (no_types))
  show "\<exists>P. variables w' p = Some P \<and> m_domain P = e"
    using notify_Inr [OF f(1) n] P f(2) vs by auto
qed

lemma deletionNotice_domain: "m_domain (deletionNotice t x) = m_domain x"
  by (simp add: deletionNotice_def clear_def)

lemma replacementNotice_domain: "m_domain (replacementNotice t r x) = m_domain x"
  by (simp add: replacementNotice_def)

lemma bound_removeAllowedValue:
  assumes "subscribers_bound w" "removeAllowedValue eq_iter cmp d v w = Inr (r, w')"
  shows "subscribers_bound w'"
proof (cases "domains w d")
  case None
  then show ?thesis using assms(2) by (simp add: removeAllowedValue_def)
next
  case (Some D)
  show ?thesis
  proof (cases "eq_iter v (EndOf d)")
    case True
    then show ?thesis using assms Some by (simp add: removeAllowedValue_def)
  next
    case False
    from assms(2) Some False obtain vs1 a where
      n: "notify (deletionNotice (find_iter cmp (heap w) d D v)) (m_managed_variables D) (variables w) = Inr vs1"
      and w': "w' = w\<lparr>heap := (heap w)(a := None), variables := vs1,
        domains := (domains w)(d \<mapsto> D\<lparr>m_allowed_values := removeAll a (m_allowed_values D)\<rparr>)\<rparr>"
      by (auto simp: removeAllowedValue_def domain_deletionNotice_def set_erase_def Let_def
          split: sum.splits ptr.splits)
    show ?thesis
      by (rule bound_notified [OF assms(1) deletionNotice_idem deletionNotice_domain n])
        (use Some w' in \<open>auto split: if_splits\<close>)
  qed
qed

lemma bound_replaceAllowedValue:
  assumes "subscribers_bound w" "replaceAllowedValue cmp d v v' w = Inr (r, w')"
  shows "subscribers_bound w'"
proof (cases "domains w d")
  case None
  then show ?thesis using assms(2) by (simp add: replaceAllowedValue_def)
next
  case (Some D)
  show ?thesis
  proof (cases "set_find cmp (heap w) (m_allowed_values D) v")
    case None
    then show ?thesis using assms Some by (simp add: replaceAllowedValue_def)
  next
    case (Some a)
    obtain b s h1 n1 nodes1 where
      ins: "set_insert cmp v' (heap w, next_addr w, m_allowed_values D) = ((b, s), (h1, n1, nodes1))"
      by (metis prod_cases3 surj_pair)
    from assms(2) \<open>domains w d = Some D\<close> Some ins obtain vs1 where
      n: "notify (replacementNotice (Node a) (Node b)) (m_managed_variables D) (variables w) = Inr vs1"
      and w': "w' = w\<lparr>heap := h1(a := None), next_addr := n1, variables := vs1,
        domains := (domains w)(d \<mapsto> D\<lparr>m_allowed_values := removeAll a nodes1\<rparr>)\<rparr>"
      by (auto simp: replaceAllowedValue_def domain_replacementNotice_def set_erase_def
          split: sum.splits)
    show ?thesis
      by (rule bound_notified [OF assms(1) replacementNotice_idem replacementNotice_domain n])
        (use \<open>domains w d = Some D\<close> w' in \<open>auto split: if_splits\<close>)
  qed
qed

lemma assignments_never_return:
  "copy_assign this other w \<noteq> Inr w'"
  "move_assign this other w \<noteq> Inr w'"
  "assign_value cmp this v w \<noteq> Inr w'"
  by (simp_all add: copy_assign_def move_assign_def assign_value_def bind_err_def
      flows_off_the_end_def split: sum.splits)

lemma bound_apply_operation:
  assumes "\<not> is_domain_move x" "subscribers_bound w"
    and "apply_operation eq_iter cmp x w = Inr w'"
  shows "subscribers_bound w'"
proof (cases x)
  case (NewDomain d ilist)
  then show ?thesis using assms bound_new_domain by fastforce
next
  case (MoveDomain d e)
  then show ?thesis using assms(1) by simp
next
  case (DestroyDomain d)
  then show ?thesis using assms bound_destroy_domain by fastforce
next
  case (AddAllowedValue d v)
  then show ?thesis using assms bound_addAllowedValue by (fastforce simp: bind_err_Inr)
next
  case (RemoveAllowedValue d v)
  then show ?thesis using assms bound_removeAllowedValue by (fastforce simp: bind_err_Inr)
next
  case (ReplaceAllowedValue d v v')
  then show ?thesis using assms bound_replaceAllowedValue by (fastforce simp: bind_err_Inr)
next
  case (ConstructValue p d v)
  then show ?thesis using assms bound_construct_value by fastforce
next
  case (ConstructEmpty p d)
  then show ?thesis using assms bound_construct_empty by fastforce
next
  case (CopyConstruct p q)
  then show ?thesis using assms bound_copy_construct by fastforce
next
  case (MoveConstruct p q)
  then show ?thesis using assms bound_move_construct by fastforce
next
  case (CopyAssign p q)
  then show ?thesis using assms(3) by (simp add: assignments_never_return)
next
  case (MoveAssign p q)
  then show ?thesis using assms(3) by (simp add: assignments_never_return)
next
  case (AssignValue p v)
  then show ?thesis using assms(3) by (simp add: assignments_never_return)
next
  case (Clear p)
  then show ?thesis using assms bound_clear_variable by fastforce
next
  case (DestroyVariable p)
  then show ?thesis using assms bound_destroy_variable by fastforce
qed

lemma bound_run:
  "moves_no_domain xs \<Longrightarrow> subscribers_bound w \<Longrightarrow> run eq_iter cmp xs w = Inr w' \<Longrightarrow>
     subscribers_bound w'"
proof (induction xs arbitrary: w)
  case Nil
  then show ?case by simp
next
  case (Cons x xs)
  from Cons.prems(1) have x: "\<not> is_domain_move x" and xs: "moves_no_domain xs"
    by (simp_all add: moves_no_domain_def)
  from Cons.prems(3) obtain w1 where
    "apply_operation eq_iter cmp x w = Inr w1" "run eq_iter cmp xs w1 = Inr w'"
    by (auto split: sum.splits)
  then show ?case using Cons.IH [OF xs] bound_apply_operation [OF x Cons.prems(2)] by blast
qed

section \<open>Evaluation on the concrete store\<close>

lemmas eval_defs = assign_value_def move_assign_def flows_off_the_end_def replaceAllowedValue_def removeAllowedValue_def set_insert_def set_erase_def
  set_find_def node_matches_def equivalent_def find_iter_def domain_replacementNotice_def
  domain_deletionNotice_def replacementNotice_def deletionNotice_def clear_def
  example_world_def example_domain_def isAllowedValue_def operator_value_type_def has_value_def
  construct_value_def assign_value_statements_def bind_err_def get_domain_def get_variable_def on_domain_def
  on_variable_def subscribeVariable_def


lemma torn_down_world_reachable:
  "run eq_iter (<) teardown_program empty_world = Inr torn_down_world"
  by (simp add: teardown_program_def example_program_def torn_down_world_def empty_world_def
      new_domain_def set_insert_def set_find_def node_matches_def equivalent_def
      construct_value_def destroy_variable_def bind_err_def get_domain_def get_variable_def
      on_domain_def find_iter_def subscribeVariable_def unsubscribeVariable_def eval_nat_numeral)

section \<open>What the guard of removal and a lookup miss do\<close>

lemma removeAllowedValue_intended_guard:
  assumes swo: "strict_weak_order cmp"
    and wf: "well_formed cmp w d D"
    and guard: "eq_iter v (EndOf d) \<longleftrightarrow> find_iter cmp (heap w) d D v = EndOf d"
  shows "(set_find cmp (heap w) (m_allowed_values D) v = None \<longrightarrow>
            removeAllowedValue eq_iter cmp d v w = Inr (False, w))
    \<and> (\<forall>a. set_find cmp (heap w) (m_allowed_values D) v = Some a \<longrightarrow>
          (\<exists>w' D'. removeAllowedValue eq_iter cmp d v w = Inr (True, w')
             \<and> domains w' d = Some D'
             \<and> \<not> isAllowedValue cmp (heap w') D' v
             \<and> (\<forall>p\<in>set (m_managed_variables D).
                   \<exists>P P'. variables w p = Some P \<and> variables w' p = Some P'
                     \<and> (m_value P = Node a \<longrightarrow> \<not> has_value P')
                     \<and> (m_value P \<noteq> Node a \<longrightarrow> P' = P))))"
proof (intro conjI allI impI)
  assume "set_find cmp (heap w) (m_allowed_values D) v = None"
  then show "removeAllowedValue eq_iter cmp d v w = Inr (False, w)"
    using wf guard by (simp add: removeAllowedValue_def well_formed_def find_iter_def)
next
  fix a
  assume old: "set_find cmp (heap w) (m_allowed_values D) v = Some a"
  from wf have dom: "domains w d = Some D"
    and inv: "set_invariant cmp (heap w) (m_allowed_values D)"
    and live: "\<forall>p\<in>set (m_managed_variables D). variables w p \<noteq> None"
    by (simp_all add: well_formed_def list_all_iff)
  define vs' where "vs' = (\<lambda>p. if p \<in> set (m_managed_variables D)
      then map_option (deletionNotice (Node a)) (variables w p) else variables w p)"
  define D' where "D' = D\<lparr>m_allowed_values := removeAll a (m_allowed_values D)\<rparr>"
  define w' where "w' = w\<lparr>heap := (heap w)(a := None), variables := vs',
      domains := (domains w)(d \<mapsto> D')\<rparr>"
  have it: "find_iter cmp (heap w) d D v = Node a" using old by (simp add: find_iter_def)
  have res: "removeAllowedValue eq_iter cmp d v w = Inr (True, w')"
    using dom it guard live
    by (simp add: removeAllowedValue_def domain_deletionNotice_def
        notify_result [of "deletionNotice (Node a)", OF deletionNotice_idem]
        set_erase_def w'_def vs'_def D'_def)
  have gone: "\<not> isAllowedValue cmp (heap w') D' v"
    using find_after_erase [OF swo inv old] by (simp add: isAllowedValue_def w'_def D'_def)
  have vars: "\<exists>P P'. variables w p = Some P \<and> variables w' p = Some P'
      \<and> (m_value P = Node a \<longrightarrow> \<not> has_value P') \<and> (m_value P \<noteq> Node a \<longrightarrow> P' = P)"
    if "p \<in> set (m_managed_variables D)" for p
  proof -
    from live that obtain P where P: "variables w p = Some P" by auto
    then have "variables w' p = Some (deletionNotice (Node a) P)"
      using that by (simp add: w'_def vs'_def)
    with P show ?thesis by (simp add: deletionNotice_def clear_def has_value_def)
  qed
  show "\<exists>w' D'. removeAllowedValue eq_iter cmp d v w = Inr (True, w')
             \<and> domains w' d = Some D'
             \<and> \<not> isAllowedValue cmp (heap w') D' v
             \<and> (\<forall>p\<in>set (m_managed_variables D).
                   \<exists>P P'. variables w p = Some P \<and> variables w' p = Some P'
                     \<and> (m_value P = Node a \<longrightarrow> \<not> has_value P')
                     \<and> (m_value P \<noteq> Node a \<longrightarrow> P' = P))"
  proof (rule exI [of _ w'], rule exI [of _ D'], intro conjI ballI)
    show "removeAllowedValue eq_iter cmp d v w = Inr (True, w')" by (rule res)
    show "domains w' d = Some D'" by (simp add: w'_def)
    show "\<not> isAllowedValue cmp (heap w') D' v" by (rule gone)
  next
    fix p assume "p \<in> set (m_managed_variables D)"
    then show "\<exists>P P'. variables w p = Some P \<and> variables w' p = Some P'
      \<and> (m_value P = Node a \<longrightarrow> \<not> has_value P') \<and> (m_value P \<noteq> Node a \<longrightarrow> P' = P)"
      by (rule vars)
  qed
qed

lemma removeAllowedValue_guard_false_absent:
  assumes "domains w d = Some D"
    and "set_find cmp (heap w) (m_allowed_values D) v = None"
    and "\<not> eq_iter v (EndOf d)"
  shows "removeAllowedValue eq_iter cmp d v w = Inl UndefinedBehaviour"
  using assms
  by (simp add: removeAllowedValue_def find_iter_def domain_deletionNotice_def Let_def
      notify_result [of "deletionNotice (EndOf d)", OF deletionNotice_idem])

lemma removeAllowedValue_guard_true_present:
  assumes "domains w d = Some D" and "eq_iter v (EndOf d)"
  shows "removeAllowedValue eq_iter cmp d v w = Inr (False, w)"
  using assms by (simp add: removeAllowedValue_def)

lemma construct_value_miss:
  assumes "domains w d = Some D" "variables w this = None"
    and "set_find cmp (heap w) (m_allowed_values D) v = None"
  shows "construct_value cmp this d v w =
    Inr (w\<lparr>variables := (variables w)(this \<mapsto> \<lparr>m_domain = d, m_value = EndOf d\<rparr>),
           domains := (domains w)(d \<mapsto> subscribeVariable this D)\<rparr>)"
    and "has_value \<lparr>m_domain = d, m_value = EndOf d\<rparr>"
  using assms
  by (simp_all add: construct_value_def bind_err_def get_domain_def on_domain_def find_iter_def
      has_value_def)

lemma assign_value_statements_miss:
  assumes "variables w this = Some P" "domains w (m_domain P) = Some D"
    and "set_find cmp (heap w) (m_allowed_values D) v = None"
  shows "assign_value_statements cmp this v w =
    Inr (w\<lparr>variables := (variables w)(this \<mapsto> P\<lparr>m_value := EndOf (m_domain P)\<rparr>)\<rparr>)"
    and "has_value (P\<lparr>m_value := EndOf (m_domain P)\<rparr>)"
  using assms
  by (simp_all add: assign_value_statements_def bind_err_def get_domain_def get_variable_def on_variable_def
      find_iter_def has_value_def)

lemma replaceAllowedValue_merges_identity:
  assumes swo: "strict_weak_order cmp"
    and wf: "well_formed cmp w d D"
    and old: "set_find cmp (heap w) (m_allowed_values D) old_value = Some a"
    and new: "set_find cmp (heap w) (m_allowed_values D) new_value = Some b"
    and ne: "\<not> equivalent cmp old_value new_value"
  shows "replaceAllowedValue cmp d old_value new_value w =
    Inr (True,
         w\<lparr>heap := (heap w)(a := None), next_addr := next_addr w,
           variables := (\<lambda>p. if p \<in> set (m_managed_variables D)
                              then map_option (replacementNotice (Node a) (Node b)) (variables w p)
                              else variables w p),
           domains := (domains w)(d \<mapsto> D\<lparr>m_allowed_values := removeAll a (m_allowed_values D)\<rparr>)\<rparr>)"
    and "b \<noteq> a"
    and "set_find cmp ((heap w)(a := None)) (removeAll a (m_allowed_values D)) new_value = Some b"
proof -
  have dom: "domains w d = Some D"
    and inv: "set_invariant cmp (heap w) (m_allowed_values D)"
    and fresh: "heap w (next_addr w) = None"
    and live: "list_all (\<lambda>p. variables w p \<noteq> None) (m_managed_variables D)"
    using wf by (simp_all add: well_formed_def)
  have ins: "set_insert cmp new_value (heap w, next_addr w, m_allowed_values D) =
      ((b, False), (heap w, next_addr w, m_allowed_values D))"
    using new by (simp add: set_insert_def)
  show "replaceAllowedValue cmp d old_value new_value w =
    Inr (True,
         w\<lparr>heap := (heap w)(a := None), next_addr := next_addr w,
           variables := (\<lambda>p. if p \<in> set (m_managed_variables D)
                              then map_option (replacementNotice (Node a) (Node b)) (variables w p)
                              else variables w p),
           domains := (domains w)(d \<mapsto> D\<lparr>m_allowed_values := removeAll a (m_allowed_values D)\<rparr>)\<rparr>)"
    by (rule replaceAllowedValue_present [OF dom old live ins])
  show "b \<noteq> a" by (rule replace_set_facts(1) [OF swo inv fresh old ne ins])
  show "set_find cmp ((heap w)(a := None)) (removeAll a (m_allowed_values D)) new_value = Some b"
    by (rule replace_set_facts(2) [OF swo inv fresh old ne ins])
qed

section \<open>Every reachable store is well-formed\<close>

lemma set_invariant_cong:
  assumes "\<forall>a\<in>set nodes. h' a = h a"
  shows "set_invariant cmp h' nodes = set_invariant cmp h nodes"
proof -
  have nl: "node_less cmp h' a b = node_less cmp h a b" if "a \<in> set nodes" "b \<in> set nodes" for a b
  proof -
    from assms that have "h' a = h a" "h' b = h b" by simp_all
    then show ?thesis by (simp add: node_less_def split: option.splits)
  qed
  have "sorted_wrt (node_less cmp h') nodes = sorted_wrt (node_less cmp h) nodes"
    by (rule iffI; erule sorted_wrt_mono_rel [rotated]) (simp_all add: nl)
  then show ?thesis using assms by (simp add: set_invariant_def list_all_iff)
qed

lemma set_invariant_erase:
  assumes "set_invariant cmp h nodes"
  shows "set_invariant cmp (h(a := None)) (removeAll a nodes)"
proof -
  have "sorted_wrt (node_less cmp h) (removeAll a nodes)"
    using assms by (simp add: set_invariant_def removeAll_filter_not_eq sorted_wrt_filter)
  then have "set_invariant cmp h (removeAll a nodes)"
    using assms by (simp add: set_invariant_def list_all_iff)
  moreover have "\<forall>c\<in>set (removeAll a nodes). (h(a := None)) c = h c" by simp
  ultimately show ?thesis by (simp only: set_invariant_cong)
qed

lemma sorted_place:
  assumes swo: "strict_weak_order cmp"
    and n: "h' n = Some v"
    and "\<forall>a\<in>set nodes. a \<noteq> n \<and> h' a = h a \<and> h a \<noteq> None \<and> \<not> node_matches cmp h v a"
    and "sorted_wrt (node_less cmp h') nodes"
  shows "sorted_wrt (node_less cmp h') (place cmp h v n nodes)"
  using assms(3-)
proof (induction nodes)
  case Nil
  then show ?case by simp
next
  case (Cons b bs)
  from Cons.prems(1) obtain x where x: "h b = Some x" "h' b = Some x" and bn: "b \<noteq> n"
    and nm: "\<not> node_matches cmp h v b" by auto
  have trans: "\<And>p q r. cmp p q \<Longrightarrow> cmp q r \<Longrightarrow> cmp p r"
    using swo unfolding strict_weak_order_def by blast
  have later: "\<forall>c\<in>set bs. node_less cmp h' b c" and sorted: "sorted_wrt (node_less cmp h') bs"
    using Cons.prems(2) by simp_all
  show ?case
  proof (cases "cmp v x")
    case True
    have "node_less cmp h' n b" using x n True by (simp add: node_less_def)
    moreover have "\<forall>c\<in>set bs. node_less cmp h' n c"
    proof
      fix c assume "c \<in> set bs"
      with later have "node_less cmp h' b c" by simp
      with x n True show "node_less cmp h' n c"
        by (auto simp: node_less_def split: option.splits intro: trans)
    qed
    ultimately show ?thesis using x True later sorted by simp
  next
    case False
    have "\<not> equivalent cmp x v" using nm x by (simp add: node_matches_def)
    with False have xv: "cmp x v" by (auto simp: equivalent_def)
    have "node_less cmp h' b n" using x n xv by (simp add: node_less_def)
    moreover have "sorted_wrt (node_less cmp h') (place cmp h v n bs)"
      using Cons.IH Cons.prems(1) sorted by simp
    ultimately show ?thesis using x False later by (simp add: set_place)
  qed
qed

lemma set_invariant_insert:
  assumes swo: "strict_weak_order cmp"
    and inv: "set_invariant cmp h nodes"
    and fresh: "h n = None"
    and ins: "set_insert cmp v (h, n, nodes) = ((b, s), (h1, n1, nodes1))"
  shows "set_invariant cmp h1 nodes1"
  using ins
proof (cases rule: set_insert_cases)
  case existing
  then show ?thesis using inv by simp
next
  case fresh': fresh
  define h' where "h' = h(n \<mapsto> v)"
  have live: "\<forall>a\<in>set nodes. h a \<noteq> None" using inv by (simp add: set_invariant_def list_all_iff)
  then have nn: "\<forall>a\<in>set nodes. a \<noteq> n" using fresh by auto
  then have same: "\<forall>a\<in>set nodes. h' a = h a" by (simp add: h'_def)
  have "set_invariant cmp h' nodes" using inv by (simp only: set_invariant_cong [OF same])
  then have sorted: "sorted_wrt (node_less cmp h') nodes" by (simp add: set_invariant_def)
  have none: "\<forall>a\<in>set nodes. \<not> node_matches cmp h v a"
    using fresh'(1) by (simp add: set_find_None)
  have n: "h' n = Some v" by (simp add: h'_def)
  have "sorted_wrt (node_less cmp h') (place cmp h v n nodes)"
    by (rule sorted_place [OF swo n _ sorted]) (use nn same live none in blast)
  moreover have "\<forall>a\<in>set (place cmp h v n nodes). h' a \<noteq> None"
    using live same n by (auto simp: set_place)
  ultimately show ?thesis using fresh' by (simp add: set_invariant_def list_all_iff h'_def)
qed


lemma same_sets_refl: "same_sets w w"
  by (simp add: same_sets_def)

lemma same_sets_trans: "same_sets w w1 \<Longrightarrow> same_sets w1 w2 \<Longrightarrow> same_sets w w2"
  by (simp add: same_sets_def)

lemma same_sets_domain:
  assumes "same_sets w w'" "domains w' d = Some D'"
  obtains D where "domains w d = Some D" "m_allowed_values D = m_allowed_values D'"
proof -
  from assms(1) have "map_option m_allowed_values (domains w' d) =
      map_option m_allowed_values (domains w d)"
    unfolding same_sets_def by blast
  with assms(2) have "map_option m_allowed_values (domains w d) = Some (m_allowed_values D')"
    by simp
  then show ?thesis using that by (cases "domains w d") auto
qed

lemma same_sets_invariant:
  assumes s: "same_sets w w'" and inv: "store_invariant cmp w"
  shows "store_invariant cmp w'"
  unfolding store_invariant_def
proof (intro conjI allI impI)
  fix a assume "next_addr w' \<le> a"
  then show "heap w' a = None" using s inv by (simp add: same_sets_def store_invariant_def)
next
  fix d D' assume "domains w' d = Some D'"
  from same_sets_domain [OF s this] obtain D where
    D: "domains w d = Some D" "m_allowed_values D = m_allowed_values D'" .
  with inv have "set_invariant cmp (heap w) (m_allowed_values D)"
    unfolding store_invariant_def by blast
  then show "set_invariant cmp (heap w') (m_allowed_values D')"
    using s D(2) by (simp add: same_sets_def)
next
  fix d d' D1' D2'
  assume ne: "d \<noteq> d'" and "domains w' d = Some D1'" and "domains w' d' = Some D2'"
  from same_sets_domain [OF s this(2)] obtain D1 where
    D1: "domains w d = Some D1" "m_allowed_values D1 = m_allowed_values D1'" .
  from same_sets_domain [OF s \<open>domains w' d' = Some D2'\<close>] obtain D2 where
    D2: "domains w d' = Some D2" "m_allowed_values D2 = m_allowed_values D2'" .
  from inv ne D1(1) D2(1) have "set (m_allowed_values D1) \<inter> set (m_allowed_values D2) = {}"
    unfolding store_invariant_def by blast
  then show "set (m_allowed_values D1') \<inter> set (m_allowed_values D2') = {}"
    using D1(2) D2(2) by simp
qed

lemma on_domain_same_sets:
  assumes "\<And>D. m_allowed_values (f D) = m_allowed_values D" "on_domain d f w = Inr w'"
  shows "same_sets w w'"
  using assms by (auto simp: on_domain_Inr same_sets_def)

lemma on_variable_same_sets: "on_variable p f w = Inr w' \<Longrightarrow> same_sets w w'"
  by (auto simp: on_variable_Inr same_sets_def)

lemma variables_update_same_sets: "same_sets w (w\<lparr>variables := vs\<rparr>)"
  by (simp add: same_sets_def)

lemma subscribe_same_sets: "on_domain d (subscribeVariable p) w = Inr w' \<Longrightarrow> same_sets w w'"
  by (rule on_domain_same_sets [of "subscribeVariable p"]) (simp_all add: subscribeVariable_def)

lemma unsubscribe_same_sets: "on_domain d (unsubscribeVariable p) w = Inr w' \<Longrightarrow> same_sets w w'"
  by (rule on_domain_same_sets [of "unsubscribeVariable p"]) (simp_all add: unsubscribeVariable_def)

lemmas same_sets_steps = subscribe_same_sets unsubscribe_same_sets on_variable_same_sets
  variables_update_same_sets same_sets_refl

lemma construct_value_same_sets:
  assumes "construct_value cmp this d v w = Inr w'"
  shows "same_sets w w'"
proof -
  from assms obtain vs where
    "on_domain d (subscribeVariable this) (w\<lparr>variables := vs\<rparr>) = Inr w'"
    by (auto simp: construct_value_def bind_err_Inr get_domain_Inr split: if_splits)
  from same_sets_trans [OF variables_update_same_sets subscribe_same_sets [OF this]]
  show ?thesis .
qed

lemma construct_empty_same_sets:
  assumes "construct_empty this d w = Inr w'"
  shows "same_sets w w'"
proof -
  from assms obtain vs where
    "on_domain d (subscribeVariable this) (w\<lparr>variables := vs\<rparr>) = Inr w'"
    by (auto simp: construct_empty_def split: if_splits)
  from same_sets_trans [OF variables_update_same_sets subscribe_same_sets [OF this]]
  show ?thesis .
qed

lemma copy_construct_same_sets:
  assumes "copy_construct this other w = Inr w'"
  shows "same_sets w w'"
proof -
  from assms obtain vs e where
    "on_domain e (subscribeVariable this) (w\<lparr>variables := vs\<rparr>) = Inr w'"
    by (auto simp: copy_construct_def bind_err_Inr get_variable_Inr split: if_splits)
  from same_sets_trans [OF variables_update_same_sets subscribe_same_sets [OF this]]
  show ?thesis .
qed

lemma move_construct_same_sets:
  assumes "move_construct this other w = Inr w'"
  shows "same_sets w w'"
proof -
  from assms obtain vs e w1 w2 where
    s1: "on_variable other clear (w\<lparr>variables := vs\<rparr>) = Inr w1"
    and s2: "on_domain e (unsubscribeVariable other) w1 = Inr w2"
    and s3: "on_domain e (subscribeVariable this) w2 = Inr w'"
    by (auto simp: move_construct_def bind_err_Inr get_variable_Inr split: if_splits)
  note t1 = same_sets_trans [OF variables_update_same_sets on_variable_same_sets [OF s1]]
  note t2 = same_sets_trans [OF t1 unsubscribe_same_sets [OF s2]]
  show ?thesis by (rule same_sets_trans [OF t2 subscribe_same_sets [OF s3]])
qed

lemma destroy_variable_same_sets:
  assumes "destroy_variable this w = Inr w'"
  shows "same_sets w w'"
proof -
  from assms obtain e w1 vs where
    s1: "on_domain e (unsubscribeVariable this) w = Inr w1" and w': "w' = w1\<lparr>variables := vs\<rparr>"
    by (auto simp: destroy_variable_def bind_err_Inr get_variable_Inr)
  show ?thesis
    unfolding w' by (rule same_sets_trans [OF unsubscribe_same_sets [OF s1] variables_update_same_sets])
qed

lemma copy_assign_statements_same_sets:
  assumes "copy_assign_statements this other w = Inr w'"
  shows "same_sets w w'"
proof -
  from assms obtain e1 w1 f2 w2 e3 w3 f4 where
    s1: "on_domain e1 (unsubscribeVariable this) w = Inr w1"
    and s2: "on_variable this f2 w1 = Inr w2"
    and s3: "on_domain e3 (subscribeVariable this) w2 = Inr w3"
    and s4: "on_variable this f4 w3 = Inr w'"
    unfolding copy_assign_statements_def bind_err_Inr get_variable_Inr by blast
  note t2 = same_sets_trans [OF unsubscribe_same_sets [OF s1] on_variable_same_sets [OF s2]]
  note t3 = same_sets_trans [OF t2 subscribe_same_sets [OF s3]]
  show ?thesis by (rule same_sets_trans [OF t3 on_variable_same_sets [OF s4]])
qed

lemma move_assign_statements_same_sets:
  assumes "move_assign_statements this other w = Inr w'"
  shows "same_sets w w'"
proof -
  from assms obtain e1 w1 e2 w2 f3 w3 e4 w4 f5 w5 where
    s1: "on_domain e1 (unsubscribeVariable this) w = Inr w1"
    and s2: "on_domain e2 (unsubscribeVariable other) w1 = Inr w2"
    and s3: "on_variable this f3 w2 = Inr w3"
    and s4: "on_domain e4 (subscribeVariable this) w3 = Inr w4"
    and s5: "on_variable this f5 w4 = Inr w5"
    and s6: "on_variable other clear w5 = Inr w'"
    unfolding move_assign_statements_def bind_err_Inr get_variable_Inr by blast
  note t2 = same_sets_trans [OF unsubscribe_same_sets [OF s1] unsubscribe_same_sets [OF s2]]
  note t3 = same_sets_trans [OF t2 on_variable_same_sets [OF s3]]
  note t4 = same_sets_trans [OF t3 subscribe_same_sets [OF s4]]
  note t5 = same_sets_trans [OF t4 on_variable_same_sets [OF s5]]
  show ?thesis by (rule same_sets_trans [OF t5 on_variable_same_sets [OF s6]])
qed

lemma assign_value_statements_same_sets:
  assumes "assign_value_statements cmp this v w = Inr w'"
  shows "same_sets w w'"
proof -
  from assms obtain f where "on_variable this f w = Inr w'"
    by (auto simp: assign_value_statements_def bind_err_Inr get_variable_Inr get_domain_Inr)
  then show ?thesis by (rule on_variable_same_sets)
qed

lemma clear_variable_same_sets: "clear_variable this w = Inr w' \<Longrightarrow> same_sets w w'"
  unfolding clear_variable_def by (rule on_variable_same_sets)


lemma store_invariant_insert:
  assumes swo: "strict_weak_order cmp"
    and inv: "store_invariant cmp w"
    and dom: "domains w d = Some D"
    and ins: "set_insert cmp v (heap w, next_addr w, m_allowed_values D) = ((b, s), (h1, n1, nodes1))"
    and w': "heap w' = h1" "next_addr w' = n1" "domains w' = (domains w)(d \<mapsto> D')"
      "m_allowed_values D' = nodes1"
  shows "store_invariant cmp w'"
proof -
  from inv have g1: "\<forall>a. next_addr w \<le> a \<longrightarrow> heap w a = None"
    and g2: "\<And>e E. domains w e = Some E \<Longrightarrow> set_invariant cmp (heap w) (m_allowed_values E)"
    and g3: "\<And>e e' E E'. e \<noteq> e' \<Longrightarrow> domains w e = Some E \<Longrightarrow> domains w e' = Some E' \<Longrightarrow>
        set (m_allowed_values E) \<inter> set (m_allowed_values E') = {}"
    unfolding store_invariant_def by blast+
  have fresh: "heap w (next_addr w) = None" using g1 by simp
  have live: "next_addr w \<notin> set (m_allowed_values E)" if "domains w e = Some E" for e E
    using g2 [OF that] fresh by (auto simp: set_invariant_def list_all_iff)
  have new: "set_invariant cmp h1 nodes1"
    by (rule set_invariant_insert [OF swo g2 [OF dom] fresh ins])
  have sub: "set nodes1 \<subseteq> insert (next_addr w) (set (m_allowed_values D))"
    using ins by (cases rule: set_insert_cases) (auto simp: set_place)
  have heap1: "h1 a = heap w a" if "a \<noteq> next_addr w" for a
    using ins that by (cases rule: set_insert_cases) auto
  have top: "\<forall>a. n1 \<le> a \<longrightarrow> h1 a = None"
    using ins g1 by (cases rule: set_insert_cases) auto
  have others: "set_invariant cmp h1 (m_allowed_values E)" if "domains w e = Some E" for e E
  proof -
    have "\<forall>a\<in>set (m_allowed_values E). h1 a = heap w a"
    proof
      fix c assume "c \<in> set (m_allowed_values E)"
      then have "c \<noteq> next_addr w" using live [OF that] by auto
      then show "h1 c = heap w c" by (rule heap1)
    qed
    then show ?thesis using g2 [OF that] by (simp only: set_invariant_cong)
  qed
  show ?thesis
    unfolding store_invariant_def
  proof (intro conjI allI impI)
    fix a assume "next_addr w' \<le> a"
    then show "heap w' a = None" using top w'(1,2) by simp
  next
    fix e E assume "domains w' e = Some E"
    then show "set_invariant cmp (heap w') (m_allowed_values E)"
      using w' new others by (auto split: if_splits)
  next
    fix e e' E E'
    assume ne: "e \<noteq> e'" and E: "domains w' e = Some E" and E': "domains w' e' = Some E'"
    have disj: "set nodes1 \<inter> set (m_allowed_values F) = {}"
      if "domains w f = Some F" "f \<noteq> d" for f F
      using sub live [OF that(1)] g3 [OF that(2) [symmetric] dom that(1)] by auto
    show "set (m_allowed_values E) \<inter> set (m_allowed_values E') = {}"
    proof (cases "e = d")
      case True
      then have "E = D'" "domains w e' = Some E'" "e' \<noteq> d" using E E' w'(3) ne by auto
      then show ?thesis using disj w'(4) by auto
    next
      case False
      show ?thesis
      proof (cases "e' = d")
        case True
        then have "E' = D'" "domains w e = Some E" using E E' w'(3) False by auto
        then show ?thesis using disj False w'(4) by auto
      next
        case False
        with \<open>e \<noteq> d\<close> E E' w'(3) have "domains w e = Some E" "domains w e' = Some E'" by auto
        then show ?thesis using g3 ne by blast
      qed
    qed
  qed
qed

lemma store_invariant_erase:
  assumes inv: "store_invariant cmp w"
    and dom: "domains w d = Some D"
    and a: "a \<in> set (m_allowed_values D)"
    and w': "heap w' = (heap w)(a := None)" "next_addr w' = next_addr w"
      "domains w' = (domains w)(d \<mapsto> D')"
      "m_allowed_values D' = removeAll a (m_allowed_values D)"
  shows "store_invariant cmp w'"
proof -
  from inv have g1: "\<forall>a. next_addr w \<le> a \<longrightarrow> heap w a = None"
    and g2: "\<And>e E. domains w e = Some E \<Longrightarrow> set_invariant cmp (heap w) (m_allowed_values E)"
    and g3: "\<And>e e' E E'. e \<noteq> e' \<Longrightarrow> domains w e = Some E \<Longrightarrow> domains w e' = Some E' \<Longrightarrow>
        set (m_allowed_values E) \<inter> set (m_allowed_values E') = {}"
    unfolding store_invariant_def by blast+
  have others: "set_invariant cmp (heap w') (m_allowed_values E)"
    if "domains w e = Some E" "e \<noteq> d" for e E
  proof -
    have "a \<notin> set (m_allowed_values E)" using g3 [OF that(2) that(1) dom] a by auto
    then have "\<forall>c\<in>set (m_allowed_values E). heap w' c = heap w c" using w'(1) by auto
    then show ?thesis using g2 [OF that(1)] by (simp only: set_invariant_cong)
  qed
  have own: "set_invariant cmp (heap w') (m_allowed_values D')"
    using set_invariant_erase [OF g2 [OF dom], of a] w'(1,4) by simp
  show ?thesis
    unfolding store_invariant_def
  proof (intro conjI allI impI)
    fix c assume "next_addr w' \<le> c"
    then show "heap w' c = None" using g1 w'(1,2) by simp
  next
    fix e E assume "domains w' e = Some E"
    then show "set_invariant cmp (heap w') (m_allowed_values E)"
      using w'(3) own others by (auto split: if_splits)
  next
    fix e e' E E'
    assume ne: "e \<noteq> e'" and E: "domains w' e = Some E" and E': "domains w' e' = Some E'"
    have disj: "set (m_allowed_values D') \<inter> set (m_allowed_values F) = {}"
      if "domains w f = Some F" "f \<noteq> d" for f F
      using g3 [OF that(2) [symmetric] dom that(1)] w'(4) by auto
    show "set (m_allowed_values E) \<inter> set (m_allowed_values E') = {}"
    proof (cases "e = d")
      case True
      then have "E = D'" "domains w e' = Some E'" "e' \<noteq> d" using E E' w'(3) ne by auto
      then show ?thesis using disj by auto
    next
      case False
      show ?thesis
      proof (cases "e' = d")
        case True
        then have "E' = D'" "domains w e = Some E" using E E' w'(3) False by auto
        then show ?thesis using disj False by auto
      next
        case False
        with \<open>e \<noteq> d\<close> E E' w'(3) have "domains w e = Some E" "domains w e' = Some E'" by auto
        then show ?thesis using g3 ne by blast
      qed
    qed
  qed
qed


lemma store_invariant_empty: "store_invariant cmp empty_world"
  by (simp add: store_invariant_def empty_world_def)

lemma store_invariant_addAllowedValue:
  assumes swo: "strict_weak_order cmp" and inv: "store_invariant cmp w"
    and res: "addAllowedValue cmp d v w = Inr (r, w')"
  shows "store_invariant cmp w'"
proof -
  from res obtain D where dom: "domains w d = Some D"
    by (auto simp: addAllowedValue_def split: option.splits)
  obtain b s h1 n1 nodes1 where
    ins: "set_insert cmp v (heap w, next_addr w, m_allowed_values D) = ((b, s), (h1, n1, nodes1))"
    by (metis prod_cases3 surj_pair)
  from res dom ins have w': "w' = w\<lparr>heap := h1, next_addr := n1,
      domains := (domains w)(d \<mapsto> D\<lparr>m_allowed_values := nodes1\<rparr>)\<rparr>"
    by (simp add: addAllowedValue_def)
  show ?thesis
    by (rule store_invariant_insert [OF swo inv dom ins,
          where D' = "D\<lparr>m_allowed_values := nodes1\<rparr>"]) (simp_all add: w')
qed

lemma store_invariant_removeAllowedValue:
  assumes inv: "store_invariant cmp w"
    and res: "removeAllowedValue eq_iter cmp d v w = Inr (r, w')"
  shows "store_invariant cmp w'"
proof -
  from res obtain D where dom: "domains w d = Some D"
    by (auto simp: removeAllowedValue_def split: option.splits)
  show ?thesis
  proof (cases "eq_iter v (EndOf d)")
    case True
    then show ?thesis using res dom inv by (simp add: removeAllowedValue_def)
  next
    case False
    from res dom False obtain vs1 a where
      it: "find_iter cmp (heap w) d D v = Node a"
      and w': "w' = w\<lparr>heap := (heap w)(a := None), variables := vs1,
        domains := (domains w)(d \<mapsto> D\<lparr>m_allowed_values := removeAll a (m_allowed_values D)\<rparr>)\<rparr>"
      by (auto simp: removeAllowedValue_def set_erase_def Let_def split: sum.splits ptr.splits)
    from it have "set_find cmp (heap w) (m_allowed_values D) v = Some a"
      by (simp add: find_iter_def split: option.splits)
    then have a: "a \<in> set (m_allowed_values D)" using set_find_Some by fast
    show ?thesis
      by (rule store_invariant_erase [OF inv dom a,
            where D' = "D\<lparr>m_allowed_values := removeAll a (m_allowed_values D)\<rparr>"])
        (simp_all add: w')
  qed
qed

lemma store_invariant_replaceAllowedValue:
  assumes swo: "strict_weak_order cmp" and inv: "store_invariant cmp w"
    and res: "replaceAllowedValue cmp d v v' w = Inr (r, w')"
  shows "store_invariant cmp w'"
proof -
  from res obtain D where dom: "domains w d = Some D"
    by (auto simp: replaceAllowedValue_def split: option.splits)
  show ?thesis
  proof (cases "set_find cmp (heap w) (m_allowed_values D) v")
    case None
    then show ?thesis using res dom inv by (simp add: replaceAllowedValue_def)
  next
    case (Some a)
    obtain b s h1 n1 nodes1 where
      ins: "set_insert cmp v' (heap w, next_addr w, m_allowed_values D) = ((b, s), (h1, n1, nodes1))"
      by (metis prod_cases3 surj_pair)
    from res dom Some ins obtain vs1 where
      w': "w' = w\<lparr>heap := h1(a := None), next_addr := n1, variables := vs1,
        domains := (domains w)(d \<mapsto> D\<lparr>m_allowed_values := removeAll a nodes1\<rparr>)\<rparr>"
      by (auto simp: replaceAllowedValue_def set_erase_def split: sum.splits)
    define w1 where "w1 = w\<lparr>heap := h1, next_addr := n1,
      domains := (domains w)(d \<mapsto> D\<lparr>m_allowed_values := nodes1\<rparr>)\<rparr>"
    have inv1: "store_invariant cmp w1"
      by (rule store_invariant_insert [OF swo inv dom ins,
            where D' = "D\<lparr>m_allowed_values := nodes1\<rparr>"]) (simp_all add: w1_def)
    have dom1: "domains w1 d = Some (D\<lparr>m_allowed_values := nodes1\<rparr>)" by (simp add: w1_def)
    have "a \<in> set (m_allowed_values D)" using set_find_Some [OF Some] by simp
    moreover have "set (m_allowed_values D) \<subseteq> set nodes1"
      using ins by (cases rule: set_insert_cases) (auto simp: set_place)
    ultimately have a: "a \<in> set (m_allowed_values (D\<lparr>m_allowed_values := nodes1\<rparr>))" by auto
    show ?thesis
      by (rule store_invariant_erase [OF inv1 dom1 a,
            where D' = "D\<lparr>m_allowed_values := removeAll a nodes1\<rparr>"])
        (simp_all add: w' w1_def)
  qed
qed

lemma store_invariant_fold_insert:
  assumes swo: "strict_weak_order cmp"
    and "domains w d = Some D"
    and "store_invariant cmp w"
    and "fold (\<lambda>v st. snd (set_insert cmp v st)) ilist (heap w, next_addr w, m_allowed_values D) =
      (h1, n1, nodes1)"
  shows "store_invariant cmp
    (w\<lparr>heap := h1, next_addr := n1, domains := (domains w)(d \<mapsto> D\<lparr>m_allowed_values := nodes1\<rparr>)\<rparr>)"
  using assms(2-)
proof (induction ilist arbitrary: w D)
  case Nil
  then have eq: "w\<lparr>heap := h1, next_addr := n1,
      domains := (domains w)(d \<mapsto> D\<lparr>m_allowed_values := nodes1\<rparr>)\<rparr> = w"
    by (auto simp: fun_upd_idem)
  show ?case unfolding eq by (rule Nil.prems(2))
next
  case (Cons v vs)
  obtain b s h2 n2 nodes2 where
    ins: "set_insert cmp v (heap w, next_addr w, m_allowed_values D) = ((b, s), (h2, n2, nodes2))"
    by (metis prod_cases3 surj_pair)
  define w2 where "w2 = w\<lparr>heap := h2, next_addr := n2,
      domains := (domains w)(d \<mapsto> D\<lparr>m_allowed_values := nodes2\<rparr>)\<rparr>"
  have inv2: "store_invariant cmp w2"
    by (rule store_invariant_insert [OF swo Cons.prems(2) Cons.prems(1) ins,
          where D' = "D\<lparr>m_allowed_values := nodes2\<rparr>"]) (simp_all add: w2_def)
  have dom2: "domains w2 d = Some (D\<lparr>m_allowed_values := nodes2\<rparr>)" by (simp add: w2_def)
  have fold2: "fold (\<lambda>v st. snd (set_insert cmp v st)) vs
      (heap w2, next_addr w2, m_allowed_values (D\<lparr>m_allowed_values := nodes2\<rparr>)) = (h1, n1, nodes1)"
    using Cons.prems(3) ins by (simp add: w2_def)
  have eq: "w2\<lparr>heap := h1, next_addr := n1,
      domains := (domains w2)(d \<mapsto> D\<lparr>m_allowed_values := nodes2\<rparr>\<lparr>m_allowed_values := nodes1\<rparr>)\<rparr> =
    w\<lparr>heap := h1, next_addr := n1, domains := (domains w)(d \<mapsto> D\<lparr>m_allowed_values := nodes1\<rparr>)\<rparr>"
    by (simp add: w2_def)
  from Cons.IH [OF dom2 inv2 fold2] show ?case unfolding eq .
qed

lemma store_invariant_new_domain:
  assumes swo: "strict_weak_order cmp" and inv: "store_invariant cmp w"
    and res: "new_domain cmp d ilist w = Inr w'"
  shows "store_invariant cmp w'"
proof -
  from res have none: "domains w d = None" by (auto simp: new_domain_def split: if_splits)
  define D0 where "D0 = \<lparr>m_allowed_values = [], m_managed_variables = []\<rparr>"
  define w0 where "w0 = w\<lparr>domains := (domains w)(d \<mapsto> D0)\<rparr>"
  have inv0: "store_invariant cmp w0"
    using inv unfolding store_invariant_def w0_def D0_def
    by (auto simp: set_invariant_def split: if_splits)
  obtain h1 n1 nodes1 where
    f: "fold (\<lambda>v st. snd (set_insert cmp v st)) ilist (heap w, next_addr w, []) = (h1, n1, nodes1)"
    by (metis prod_cases3)
  have w': "w' = w\<lparr>heap := h1, next_addr := n1,
      domains := (domains w)(d \<mapsto> \<lparr>m_allowed_values = nodes1, m_managed_variables = []\<rparr>)\<rparr>"
    using res none f by (simp add: new_domain_def)
  have dom0: "domains w0 d = Some D0" by (simp add: w0_def)
  have f0: "fold (\<lambda>v st. snd (set_insert cmp v st)) ilist
      (heap w0, next_addr w0, m_allowed_values D0) = (h1, n1, nodes1)"
    using f by (simp add: w0_def D0_def)
  have eq: "w0\<lparr>heap := h1, next_addr := n1,
      domains := (domains w0)(d \<mapsto> D0\<lparr>m_allowed_values := nodes1\<rparr>)\<rparr> = w'"
    by (simp add: w' w0_def D0_def)
  from store_invariant_fold_insert [OF swo dom0 inv0 f0] show ?thesis unfolding eq .
qed

lemma store_invariant_destroy_domain:
  assumes inv: "store_invariant cmp w" and res: "destroy_domain d w = Inr w'"
  shows "store_invariant cmp w'"
proof -
  from res obtain D where dom: "domains w d = Some D"
    and w': "w' = w\<lparr>heap := (\<lambda>a. if a \<in> set (m_allowed_values D) then None else heap w a),
        domains := (domains w)(d := None)\<rparr>"
    by (auto simp: destroy_domain_def split: option.splits if_splits)
  from inv have g1: "\<forall>a. next_addr w \<le> a \<longrightarrow> heap w a = None"
    and g2: "\<And>e E. domains w e = Some E \<Longrightarrow> set_invariant cmp (heap w) (m_allowed_values E)"
    and g3: "\<And>e e' E E'. e \<noteq> e' \<Longrightarrow> domains w e = Some E \<Longrightarrow> domains w e' = Some E' \<Longrightarrow>
        set (m_allowed_values E) \<inter> set (m_allowed_values E') = {}"
    unfolding store_invariant_def by blast+
  show ?thesis
    unfolding store_invariant_def
  proof (intro conjI allI impI)
    fix a assume "next_addr w' \<le> a"
    then show "heap w' a = None" using g1 by (simp add: w')
  next
    fix e E assume "domains w' e = Some E"
    then have E: "domains w e = Some E" "e \<noteq> d" by (auto simp: w' split: if_splits)
    have "\<forall>c\<in>set (m_allowed_values E). heap w' c = heap w c"
      using g3 [OF E(2) E(1) dom] by (auto simp: w')
    then show "set_invariant cmp (heap w') (m_allowed_values E)"
      using g2 [OF E(1)] by (simp only: set_invariant_cong)
  next
    fix e e' E E'
    assume "e \<noteq> e'" "domains w' e = Some E" "domains w' e' = Some E'"
    then show "set (m_allowed_values E) \<inter> set (m_allowed_values E') = {}"
      using g3 [of e e' E E'] by (auto simp: w' split: if_splits)
  qed
qed

lemma store_invariant_move_domain:
  assumes inv: "store_invariant cmp w" and res: "move_domain d e w = Inr w'"
  shows "store_invariant cmp w'"
proof -
  from res obtain D where none: "domains w d = None" and dom: "domains w e = Some D"
    and w': "w' = w\<lparr>domains := (domains w)
               (d \<mapsto> \<lparr>m_allowed_values = m_allowed_values D,
                       m_managed_variables = m_managed_variables D\<rparr>,
                e \<mapsto> \<lparr>m_allowed_values = [], m_managed_variables = []\<rparr>)\<rparr>"
    by (auto simp: move_domain_def bind_err_Inr get_domain_Inr split: if_splits)
  have de: "d \<noteq> e" using none dom by auto
  from inv have g1: "\<forall>a. next_addr w \<le> a \<longrightarrow> heap w a = None"
    and g2: "\<And>f F. domains w f = Some F \<Longrightarrow> set_invariant cmp (heap w) (m_allowed_values F)"
    and g3: "\<And>f f' F F'. f \<noteq> f' \<Longrightarrow> domains w f = Some F \<Longrightarrow> domains w f' = Some F' \<Longrightarrow>
        set (m_allowed_values F) \<inter> set (m_allowed_values F') = {}"
    unfolding store_invariant_def by blast+
  have nodes: "\<exists>G. domains w (if f = d then e else f) = Some G
      \<and> m_allowed_values F = (if f = e then [] else m_allowed_values G)"
    if "domains w' f = Some F" for f F
  proof (cases "f = e")
    case True
    then show ?thesis using that dom de by (auto simp: w')
  next
    case False
    then show ?thesis using that dom de by (cases "f = d") (auto simp: w')
  qed
  show ?thesis
    unfolding store_invariant_def
  proof (intro conjI allI impI)
    fix a assume "next_addr w' \<le> a"
    then show "heap w' a = None" using g1 by (simp add: w')
  next
    fix f F assume F: "domains w' f = Some F"
    from nodes [OF F] obtain G where G: "domains w (if f = d then e else f) = Some G"
      "m_allowed_values F = (if f = e then [] else m_allowed_values G)"
      by blast
    have "set_invariant cmp (heap w) (m_allowed_values F)"
      using G(2) g2 [OF G(1)] by (simp add: set_invariant_def)
    then show "set_invariant cmp (heap w') (m_allowed_values F)" by (simp add: w')
  next
    fix f f' F F'
    assume ne: "f \<noteq> f'" and F: "domains w' f = Some F" and F': "domains w' f' = Some F'"
    from nodes [OF F] obtain G where G: "domains w (if f = d then e else f) = Some G"
      "m_allowed_values F = (if f = e then [] else m_allowed_values G)"
      by blast
    from nodes [OF F'] obtain G' where G': "domains w (if f' = d then e else f') = Some G'"
      "m_allowed_values F' = (if f' = e then [] else m_allowed_values G')"
      by blast
    show "set (m_allowed_values F) \<inter> set (m_allowed_values F') = {}"
    proof (cases "f = e \<or> f' = e")
      case True
      then show ?thesis using G(2) G'(2) by auto
    next
      case False
      then have "(if f = d then e else f) \<noteq> (if f' = d then e else f')" using ne by auto
      from g3 [OF this G(1) G'(1)] show ?thesis using False G(2) G'(2) by simp
    qed
  qed
qed

lemma store_invariant_apply_operation:
  assumes "strict_weak_order cmp" "store_invariant cmp w"
    and "apply_operation eq_iter cmp x w = Inr w'"
  shows "store_invariant cmp w'"
proof (cases x)
  case (NewDomain d ilist)
  then show ?thesis using assms store_invariant_new_domain by fastforce
next
  case (MoveDomain d e)
  then show ?thesis using assms store_invariant_move_domain by fastforce
next
  case (DestroyDomain d)
  then show ?thesis using assms store_invariant_destroy_domain by fastforce
next
  case (AddAllowedValue d v)
  then show ?thesis using assms store_invariant_addAllowedValue
    by (fastforce simp: bind_err_Inr)
next
  case (RemoveAllowedValue d v)
  then show ?thesis using assms store_invariant_removeAllowedValue
    by (fastforce simp: bind_err_Inr)
next
  case (ReplaceAllowedValue d v v')
  then show ?thesis using assms store_invariant_replaceAllowedValue
    by (fastforce simp: bind_err_Inr)
next
  case (ConstructValue p d v)
  then show ?thesis
    using assms same_sets_invariant [OF construct_value_same_sets] by fastforce
next
  case (ConstructEmpty p d)
  then show ?thesis
    using assms same_sets_invariant [OF construct_empty_same_sets] by fastforce
next
  case (CopyConstruct p q)
  then show ?thesis
    using assms same_sets_invariant [OF copy_construct_same_sets] by fastforce
next
  case (MoveConstruct p q)
  then show ?thesis
    using assms same_sets_invariant [OF move_construct_same_sets] by fastforce
next
  case (CopyAssign p q)
  then show ?thesis using assms(3) by (simp add: assignments_never_return)
next
  case (MoveAssign p q)
  then show ?thesis using assms(3) by (simp add: assignments_never_return)
next
  case (AssignValue p v)
  then show ?thesis using assms(3) by (simp add: assignments_never_return)
next
  case (Clear p)
  then show ?thesis
    using assms same_sets_invariant [OF clear_variable_same_sets] by fastforce
next
  case (DestroyVariable p)
  then show ?thesis
    using assms same_sets_invariant [OF destroy_variable_same_sets] by fastforce
qed

lemma store_invariant_run:
  "strict_weak_order cmp \<Longrightarrow> store_invariant cmp w \<Longrightarrow> run eq_iter cmp xs w = Inr w' \<Longrightarrow>
     store_invariant cmp w'"
proof (induction xs arbitrary: w)
  case Nil
  then show ?case by simp
next
  case (Cons x xs)
  from Cons.prems(3) obtain w1 where
    "apply_operation eq_iter cmp x w = Inr w1" "run eq_iter cmp xs w1 = Inr w'"
    by (auto split: sum.splits)
  then show ?case
    using Cons.IH [OF Cons.prems(1)] store_invariant_apply_operation [OF Cons.prems(1,2)] by blast
qed

lemma reachable_well_formed:
  assumes swo: "strict_weak_order cmp"
    and nomove: "moves_no_domain program"
    and run: "run eq_iter cmp program empty_world = Inr w"
    and dom: "domains w d = Some D"
  shows "well_formed cmp w d D"
proof -
  have inv: "store_invariant cmp w" by (rule store_invariant_run [OF swo store_invariant_empty run])
  have bound: "subscribers_bound w" by (rule bound_run [OF nomove bound_empty run])
  have "\<forall>p\<in>set (m_managed_variables D). variables w p \<noteq> None"
  proof
    fix p assume "p \<in> set (m_managed_variables D)"
    with bound dom obtain P where "variables w p = Some P"
      unfolding subscribers_bound_def by (metis (no_types))
    then show "variables w p \<noteq> None" by simp
  qed
  then show ?thesis
    using inv dom unfolding well_formed_def store_invariant_def list_all_iff by auto
qed

section \<open>Comparison operators\<close>

text \<open>
  C9.  When both variables convert to a value (each \<^verbatim>\<open>m_value\<close> is the address of a
  live node), \<^verbatim>\<open>operator<\<close> returns what \<^verbatim>\<open>Compare\<close> says about the two values,
  \<^verbatim>\<open>operator==\<close> returns true exactly when neither value precedes the other, and
  \<^verbatim>\<open>!=\<close>, \<^verbatim>\<open>>\<close>, \<^verbatim>\<open><=\<close>, \<^verbatim>\<open>>=\<close> are the derived relations.  The comparison
  is asymmetric, as every strict ordering is.
\<close>

theorem comparison_operators_follow_Compare:
  assumes "operator_value_type w lhs = Inr x"
    and "operator_value_type w rhs = Inr y"
    and "\<forall>a b. cmp a b \<longrightarrow> \<not> cmp b a"
  shows "operator_lt cmp w lhs rhs = Inr (cmp x y)
    \<and> operator_eq cmp w lhs rhs = Inr (\<not> cmp x y \<and> \<not> cmp y x)
    \<and> operator_ne cmp w lhs rhs = Inr (cmp x y \<or> cmp y x)
    \<and> operator_gt cmp w lhs rhs = Inr (cmp y x)
    \<and> operator_le cmp w lhs rhs = Inr (\<not> cmp y x)
    \<and> operator_ge cmp w lhs rhs = Inr (\<not> cmp x y)"
  using assms
  by (auto simp: operator_lt_def operator_eq_def operator_ne_def operator_gt_def
      operator_le_def operator_ge_def Compare_def bind_err_def)

theorem comparison_operators_witness:
  "operator_value_type example_world \<lparr>m_domain = 0, m_value = Node 1\<rparr> = Inr 2
   \<and> operator_value_type example_world \<lparr>m_domain = 0, m_value = Node 0\<rparr> = Inr 1
   \<and> operator_lt (<) example_world \<lparr>m_domain = 0, m_value = Node 1\<rparr> \<lparr>m_domain = 0, m_value = Node 0\<rparr> = Inr False
   \<and> operator_eq (<) example_world \<lparr>m_domain = 0, m_value = Node 1\<rparr> \<lparr>m_domain = 0, m_value = Node 0\<rparr> = Inr False
   \<and> operator_gt (<) example_world \<lparr>m_domain = 0, m_value = Node 1\<rparr> \<lparr>m_domain = 0, m_value = Node 0\<rparr> = Inr True"
  using comparison_operators_follow_Compare [of example_world "\<lparr>m_domain = 0, m_value = Node 1\<rparr>" 2
      "\<lparr>m_domain = 0, m_value = Node 0\<rparr>" 1 "(<)"]
  by (simp add: operator_value_type_def example_world_def)

section \<open>Replacement\<close>

text \<open>
  C2.  In a well-formed store, for \<open>old_value\<close> and \<open>new_value\<close> that are distinct under
  the ordering: when \<open>old_value\<close> is absent, \<^verbatim>\<open>replaceAllowedValue\<close> returns false
  and changes nothing; when \<open>old_value\<close> is present at node \<open>a\<close>, it returns true, and
  in the store it returns the domain contains \<open>new_value\<close> (at a node \<open>b\<close> other than
  \<open>a\<close>) and no longer contains \<open>old_value\<close>, no registered variable points at \<open>a\<close>,
  and every registered variable that pointed at \<open>a\<close> points at \<open>b\<close>, has a value and
  converts to the element stored at \<open>b\<close>.
\<close>

theorem replaceAllowedValue_atomic:
  assumes swo: "strict_weak_order cmp"
    and wf: "well_formed cmp w d D"
    and ne: "\<not> equivalent cmp old_value new_value"
  shows "(set_find cmp (heap w) (m_allowed_values D) old_value = None \<longrightarrow>
            replaceAllowedValue cmp d old_value new_value w = Inr (False, w))
    \<and> (\<forall>a. set_find cmp (heap w) (m_allowed_values D) old_value = Some a \<longrightarrow>
          (\<exists>w' D' b x.
              replaceAllowedValue cmp d old_value new_value w = Inr (True, w')
            \<and> domains w' d = Some D'
            \<and> m_managed_variables D' = m_managed_variables D
            \<and> isAllowedValue cmp (heap w') D' new_value
            \<and> \<not> isAllowedValue cmp (heap w') D' old_value
            \<and> find_iter cmp (heap w') d D' new_value = Node b
            \<and> b \<noteq> a \<and> heap w' b = Some x \<and> equivalent cmp x new_value
            \<and> (\<forall>p\<in>set (m_managed_variables D).
                  \<exists>P P'. variables w p = Some P \<and> variables w' p = Some P'
                    \<and> m_value P' \<noteq> Node a
                    \<and> (m_value P = Node a \<longrightarrow>
                          m_value P' = Node b \<and> has_value P'
                          \<and> operator_value_type w' P' = Inr x))))"
proof (intro conjI allI impI)
  assume "set_find cmp (heap w) (m_allowed_values D) old_value = None"
  then show "replaceAllowedValue cmp d old_value new_value w = Inr (False, w)"
    using wf by (simp add: replaceAllowedValue_absent well_formed_def)
next
  fix a
  assume old: "set_find cmp (heap w) (m_allowed_values D) old_value = Some a"
  from wf have dom: "domains w d = Some D"
    and inv: "set_invariant cmp (heap w) (m_allowed_values D)"
    and fresh: "heap w (next_addr w) = None"
    and live: "list_all (\<lambda>p. variables w p \<noteq> None) (m_managed_variables D)"
    by (simp_all add: well_formed_def)
  obtain b s h1 n1 nodes1 where
    ins: "set_insert cmp new_value (heap w, next_addr w, m_allowed_values D) = ((b, s), (h1, n1, nodes1))"
    by (metis prod_cases3 surj_pair)
  define vs' where "vs' = (\<lambda>p. if p \<in> set (m_managed_variables D)
      then map_option (replacementNotice (Node a) (Node b)) (variables w p) else variables w p)"
  define D' where "D' = D\<lparr>m_allowed_values := removeAll a nodes1\<rparr>"
  define w' where "w' = w\<lparr>heap := h1(a := None), next_addr := n1, variables := vs',
      domains := (domains w)(d \<mapsto> D')\<rparr>"
  have res: "replaceAllowedValue cmp d old_value new_value w = Inr (True, w')"
    unfolding w'_def vs'_def D'_def by (rule replaceAllowedValue_present [OF dom old live ins])
  note facts = replace_set_facts [OF swo inv fresh old ne ins]
  from facts(3) obtain x where x: "(h1(a := None)) b = Some x" "equivalent cmp x new_value"
    by blast
  have vars: "\<exists>P P'. variables w p = Some P \<and> variables w' p = Some P'
      \<and> m_value P' \<noteq> Node a
      \<and> (m_value P = Node a \<longrightarrow>
            m_value P' = Node b \<and> has_value P' \<and> operator_value_type w' P' = Inr x)"
    if p: "p \<in> set (m_managed_variables D)" for p
  proof -
    from live p obtain P where P: "variables w p = Some P" by (auto simp: list_all_iff)
    have P': "variables w' p = Some (replacementNotice (Node a) (Node b) P)"
      using p P by (simp add: w'_def vs'_def)
    show ?thesis
      using P P' facts(1) x(1)
      by (auto simp: replacementNotice_def has_value_def operator_value_type_def w'_def)
  qed
  show "\<exists>w' D' b x.
              replaceAllowedValue cmp d old_value new_value w = Inr (True, w')
            \<and> domains w' d = Some D'
            \<and> m_managed_variables D' = m_managed_variables D
            \<and> isAllowedValue cmp (heap w') D' new_value
            \<and> \<not> isAllowedValue cmp (heap w') D' old_value
            \<and> find_iter cmp (heap w') d D' new_value = Node b
            \<and> b \<noteq> a \<and> heap w' b = Some x \<and> equivalent cmp x new_value
            \<and> (\<forall>p\<in>set (m_managed_variables D).
                  \<exists>P P'. variables w p = Some P \<and> variables w' p = Some P'
                    \<and> m_value P' \<noteq> Node a
                    \<and> (m_value P = Node a \<longrightarrow>
                          m_value P' = Node b \<and> has_value P'
                          \<and> operator_value_type w' P' = Inr x))"
  proof (rule exI [of _ w'], rule exI [of _ D'], rule exI [of _ b], rule exI [of _ x],
      intro conjI ballI)
    show "replaceAllowedValue cmp d old_value new_value w = Inr (True, w')" by (rule res)
    show "domains w' d = Some D'" by (simp add: w'_def)
    show "m_managed_variables D' = m_managed_variables D" by (simp add: D'_def)
    show "isAllowedValue cmp (heap w') D' new_value"
      using facts(2) by (simp add: isAllowedValue_def w'_def D'_def)
    show "\<not> isAllowedValue cmp (heap w') D' old_value"
      using facts(4) by (simp add: isAllowedValue_def w'_def D'_def)
    show "find_iter cmp (heap w') d D' new_value = Node b"
      using facts(2) by (simp add: find_iter_def w'_def D'_def)
    show "b \<noteq> a" by (rule facts(1))
    show "heap w' b = Some x" using x(1) by (simp add: w'_def)
    show "equivalent cmp x new_value" by (rule x(2))
  next
    fix p assume "p \<in> set (m_managed_variables D)"
    then show "\<exists>P P'. variables w p = Some P \<and> variables w' p = Some P'
      \<and> m_value P' \<noteq> Node a
      \<and> (m_value P = Node a \<longrightarrow>
            m_value P' = Node b \<and> has_value P' \<and> operator_value_type w' P' = Inr x)"
      by (rule vars)
  qed
qed

theorem replaceAllowedValue_atomic_witness:
  "strict_weak_order ((<) :: nat \<Rightarrow> nat \<Rightarrow> bool)
   \<and> well_formed (<) example_world 0 example_domain
   \<and> \<not> equivalent (<) (2::nat) 5 \<and> \<not> equivalent (<) (7::nat) 5
   \<and> set_find (<) (heap example_world) (m_allowed_values example_domain) 7 = None
   \<and> replaceAllowedValue (<) 0 7 5 example_world = Inr (False, example_world)
   \<and> set_find (<) (heap example_world) (m_allowed_values example_domain) 2 = Some 1
   \<and> (\<exists>w' D' P'. replaceAllowedValue (<) 0 2 5 example_world = Inr (True, w')
         \<and> domains w' 0 = Some D'
         \<and> isAllowedValue (<) (heap w') D' 5 \<and> \<not> isAllowedValue (<) (heap w') D' 2
         \<and> variables w' 0 = Some P' \<and> has_value P' \<and> operator_value_type w' P' = Inr 5)"
proof -
  have ne: "\<not> equivalent (<) (2::nat) 5" and ne': "\<not> equivalent (<) (7::nat) 5"
    by (simp_all add: equivalent_def)
  have absent: "set_find (<) (heap example_world) (m_allowed_values example_domain) 7 = None"
    by (simp add: set_find_def node_matches_def equivalent_def example_world_def example_domain_def)
  have sub: "0 \<in> set (m_managed_variables example_domain)"
    and var: "variables example_world 0 = Some \<lparr>m_domain = 0, m_value = Node 1\<rparr>"
    by (simp_all add: example_domain_def example_world_def)
  from replaceAllowedValue_atomic [OF strict_weak_order_nat example_world_well_formed ne'] absent
  have r1: "replaceAllowedValue (<) 0 7 5 example_world = Inr (False, example_world)" by blast
  from replaceAllowedValue_atomic [OF strict_weak_order_nat example_world_well_formed ne]
    example_find_2
  obtain w' D' b x where
    r: "replaceAllowedValue (<) 0 2 5 example_world = Inr (True, w')" "domains w' 0 = Some D'"
      "isAllowedValue (<) (heap w') D' 5" "\<not> isAllowedValue (<) (heap w') D' 2"
      "equivalent (<) x 5"
    and vs: "\<forall>p\<in>set (m_managed_variables example_domain).
      \<exists>P P'. variables example_world p = Some P \<and> variables w' p = Some P'
        \<and> m_value P' \<noteq> Node 1
        \<and> (m_value P = Node 1 \<longrightarrow>
              m_value P' = Node b \<and> has_value P' \<and> operator_value_type w' P' = Inr x)"
    by blast
  have x: "x = 5" using r(5) by (simp add: equivalent_def)
  from vs sub var obtain P' where "variables w' 0 = Some P'" "has_value P'"
    "operator_value_type w' P' = Inr x" by fastforce
  with r x have "\<exists>w' D' P'. replaceAllowedValue (<) 0 2 5 example_world = Inr (True, w')
         \<and> domains w' 0 = Some D'
         \<and> isAllowedValue (<) (heap w') D' 5 \<and> \<not> isAllowedValue (<) (heap w') D' 2
         \<and> variables w' 0 = Some P' \<and> has_value P' \<and> operator_value_type w' P' = Inr 5"
    by blast
  with strict_weak_order_nat example_world_well_formed ne ne' absent r1 example_find_2
  show ?thesis by blast
qed

section \<open>Replacing a value by itself\<close>

text \<open>
  C10.  In a well-formed store whose domain holds \<open>x\<close> at node \<open>a\<close>,
  \<^verbatim>\<open>replaceAllowedValue(x, x)\<close> returns true; afterwards the domain does not contain
  \<open>x\<close> and node \<open>a\<close> is freed, while every variable that pointed at \<open>a\<close> is
  unchanged: it still has a value according to \<^verbatim>\<open>has_value\<close> and still holds the
  address \<open>a\<close>, so converting it to a value reads a freed node.  The insertion finds
  \<open>a\<close> itself, the replacement notice maps \<open>a\<close> to \<open>a\<close>, and \<open>a\<close> is then erased.
\<close>

theorem replaceAllowedValue_self:
  assumes swo: "strict_weak_order cmp"
    and wf: "well_formed cmp w d D"
    and old: "set_find cmp (heap w) (m_allowed_values D) x = Some a"
  shows "\<exists>w' D'. replaceAllowedValue cmp d x x w = Inr (True, w')
    \<and> domains w' d = Some D'
    \<and> \<not> isAllowedValue cmp (heap w') D' x
    \<and> a \<notin> set (m_allowed_values D') \<and> heap w' a = None
    \<and> (\<forall>p P. variables w p = Some P \<longrightarrow> m_value P = Node a \<longrightarrow>
          variables w' p = Some P \<and> has_value P
          \<and> operator_value_type w' P = Inl UndefinedBehaviour)"
proof -
  define D' where "D' = D\<lparr>m_allowed_values := removeAll a (m_allowed_values D)\<rparr>"
  define w' where "w' = w\<lparr>heap := (heap w)(a := None), next_addr := next_addr w,
           variables := (\<lambda>p. if p \<in> set (m_managed_variables D)
                              then map_option (replacementNotice (Node a) (Node a)) (variables w p)
                              else variables w p),
           domains := (domains w)(d \<mapsto> D')\<rparr>"
  have res: "replaceAllowedValue cmp d x x w = Inr (True, w')"
    unfolding w'_def D'_def by (rule replaceAllowedValue_same_key [OF swo wf old])
  have inv: "set_invariant cmp (heap w) (m_allowed_values D)"
    using wf by (simp add: well_formed_def)
  have gone: "\<not> isAllowedValue cmp (heap w') D' x"
    using find_after_erase [OF swo inv old] by (simp add: isAllowedValue_def w'_def D'_def)
  have vars: "\<forall>p P. variables w p = Some P \<longrightarrow> m_value P = Node a \<longrightarrow>
          variables w' p = Some P \<and> has_value P
          \<and> operator_value_type w' P = Inl UndefinedBehaviour"
    by (simp add: w'_def replacementNotice_same has_value_def operator_value_type_def)
  show ?thesis
    by (rule exI [of _ w'], rule exI [of _ D'])
      (use res gone vars in \<open>simp add: w'_def D'_def\<close>)
qed

theorem replaceAllowedValue_self_witness:
  "strict_weak_order ((<) :: nat \<Rightarrow> nat \<Rightarrow> bool)
   \<and> well_formed (<) example_world 0 example_domain
   \<and> set_find (<) (heap example_world) (m_allowed_values example_domain) 2 = Some 1
   \<and> (\<exists>w' D'. replaceAllowedValue (<) 0 2 2 example_world = Inr (True, w')
         \<and> domains w' 0 = Some D' \<and> \<not> isAllowedValue (<) (heap w') D' 2
         \<and> variables w' 0 = Some \<lparr>m_domain = 0, m_value = Node 1\<rparr>
         \<and> heap w' 1 = None)"
proof -
  have v: "variables example_world 0 = Some \<lparr>m_domain = 0, m_value = Node 1\<rparr>"
    by (simp add: example_world_def)
  from replaceAllowedValue_self [OF strict_weak_order_nat example_world_well_formed example_find_2] v
  have "\<exists>w' D'. replaceAllowedValue (<) 0 2 2 example_world = Inr (True, w')
         \<and> domains w' 0 = Some D' \<and> \<not> isAllowedValue (<) (heap w') D' 2
         \<and> variables w' 0 = Some \<lparr>m_domain = 0, m_value = Node 1\<rparr>
         \<and> heap w' 1 = None"
    by fastforce
  with strict_weak_order_nat example_world_well_formed example_find_2 show ?thesis by blast
qed


section \<open>Variables bound to other values\<close>

text \<open>
  C8.  A variable that points at a live node \<open>c\<close> other than the node of the value
  being removed or replaced keeps its pointer and converts to the same value after
  \<^verbatim>\<open>removeAllowedValue\<close> and after \<^verbatim>\<open>replaceAllowedValue\<close>, whatever they return.
\<close>

theorem unrelated_variable_untouched:
  assumes "domains w d = Some D"
    and "heap w (next_addr w) = None"
    and "variables w p = Some P"
    and "m_value P = Node c" and "heap w c = Some x"
    and "find_iter cmp (heap w) d D v \<noteq> Node c"
  shows "(\<forall>r w'. removeAllowedValue eq_iter cmp d v w = Inr (r, w') \<longrightarrow>
            variables w' p = Some P \<and> operator_value_type w' P = Inr x)
    \<and> (\<forall>r w'. replaceAllowedValue cmp d v v' w = Inr (r, w') \<longrightarrow>
            variables w' p = Some P \<and> operator_value_type w' P = Inr x)"
  using remove_frame [OF assms(1,3,4,5) _ assms(6)] replace_frame [OF assms(1,2,3,4,5) _ assms(6)]
  by blast

theorem unrelated_variable_untouched_witness:
  "domains example_world 0 = Some example_domain
   \<and> heap example_world (next_addr example_world) = None
   \<and> variables example_world 2 = Some \<lparr>m_domain = 0, m_value = Node 0\<rparr>
   \<and> heap example_world 0 = Some 1
   \<and> find_iter (<) (heap example_world) 0 example_domain 2 \<noteq> Node 0
   \<and> (\<exists>w'. removeAllowedValue (\<lambda>v it. False) (<) 0 2 example_world = Inr (True, w')
         \<and> variables w' 2 = Some \<lparr>m_domain = 0, m_value = Node 0\<rparr>
         \<and> operator_value_type w' \<lparr>m_domain = 0, m_value = Node 0\<rparr> = Inr 1)
   \<and> (\<exists>w'. replaceAllowedValue (<) 0 2 5 example_world = Inr (True, w')
         \<and> variables w' 2 = Some \<lparr>m_domain = 0, m_value = Node 0\<rparr>
         \<and> operator_value_type w' \<lparr>m_domain = 0, m_value = Node 0\<rparr> = Inr 1)"
proof -
  have h1: "domains example_world 0 = Some example_domain"
    and h2: "heap example_world (next_addr example_world) = None"
    and h3: "variables example_world 2 = Some \<lparr>m_domain = 0, m_value = Node 0\<rparr>"
    and h4: "m_value \<lparr>m_domain = 0, m_value = Node 0\<rparr> = Node 0"
    and h5: "heap example_world 0 = Some 1"
    by (simp_all add: example_world_def)
  have h6: "find_iter (<) (heap example_world) 0 example_domain 2 \<noteq> Node 0"
    by (simp add: find_iter_def example_find_2)
  have r1: "\<exists>w'. removeAllowedValue (\<lambda>v it. False) (<) 0 2 example_world = Inr (True, w')"
    by (simp add: eval_defs)
  have r2: "\<exists>w'. replaceAllowedValue (<) 0 2 5 example_world = Inr (True, w')"
    by (simp add: eval_defs)
  from unrelated_variable_untouched [OF h1 h2 h3 h4 h5 h6, of "\<lambda>v it. False" 5] r1 r2
  have "(\<exists>w'. removeAllowedValue (\<lambda>v it. False) (<) 0 2 example_world = Inr (True, w')
         \<and> variables w' 2 = Some \<lparr>m_domain = 0, m_value = Node 0\<rparr>
         \<and> operator_value_type w' \<lparr>m_domain = 0, m_value = Node 0\<rparr> = Inr 1)
   \<and> (\<exists>w'. replaceAllowedValue (<) 0 2 5 example_world = Inr (True, w')
         \<and> variables w' 2 = Some \<lparr>m_domain = 0, m_value = Node 0\<rparr>
         \<and> operator_value_type w' \<lparr>m_domain = 0, m_value = Node 0\<rparr> = Inr 1)"
    by blast
  with h1 h2 h3 h5 h6 show ?thesis by blast
qed

section \<open>Moving a variable\<close>

text \<open>
  What the statements of the two moves do, for a live source \<open>other\<close> bound to a live
  domain and a destination \<open>this\<close> other than the source: the move constructor
  (destination not yet constructed) returns a store, and the statements of the move
  assignment (destination live and bound to a live domain) lead to a store, in which the
  destination holds the source's domain and pointer and is registered with that domain,
  the source has no value and is not registered, and every deletion or replacement
  notice the domain sends leaves in the destination what the same notice would have left
  in the source, and leaves the source as it is.  The move assignment itself does not
  return that store: see C6 below.
\<close>

lemma move_statements_transfer_binding:
  assumes "variables w other = Some Q"
    and "domains w (m_domain Q) = Some D"
    and "this \<noteq> other"
  shows "(variables w this = None \<longrightarrow>
      (\<exists>w' D'. move_construct this other w = Inr w' \<and> handed_over w' this other Q D'
         \<and> (\<forall>t vs'. domain_deletionNotice t D' (variables w') = Inr vs' \<longrightarrow>
               vs' this = Some (deletionNotice t Q) \<and> vs' other = variables w' other)
         \<and> (\<forall>t r vs'. domain_replacementNotice t r D' (variables w') = Inr vs' \<longrightarrow>
               vs' this = Some (replacementNotice t r Q) \<and> vs' other = variables w' other)))
    \<and> (\<forall>P DP. variables w this = Some P \<and> domains w (m_domain P) = Some DP \<longrightarrow>
      (\<exists>w' D'. move_assign_statements this other w = Inr w' \<and> handed_over w' this other Q D'
         \<and> (\<forall>t vs'. domain_deletionNotice t D' (variables w') = Inr vs' \<longrightarrow>
               vs' this = Some (deletionNotice t Q) \<and> vs' other = variables w' other)
         \<and> (\<forall>t r vs'. domain_replacementNotice t r D' (variables w') = Inr vs' \<longrightarrow>
               vs' this = Some (replacementNotice t r Q) \<and> vs' other = variables w' other)))"
proof (intro conjI allI impI)
  assume "variables w this = None"
  from move_construct_hands_over [OF this assms(1,2)] obtain w' D' where
    r: "move_construct this other w = Inr w'" "handed_over w' this other Q D'" by blast
  show "\<exists>w' D'. move_construct this other w = Inr w' \<and> handed_over w' this other Q D'
         \<and> (\<forall>t vs'. domain_deletionNotice t D' (variables w') = Inr vs' \<longrightarrow>
               vs' this = Some (deletionNotice t Q) \<and> vs' other = variables w' other)
         \<and> (\<forall>t r vs'. domain_replacementNotice t r D' (variables w') = Inr vs' \<longrightarrow>
               vs' this = Some (replacementNotice t r Q) \<and> vs' other = variables w' other)"
    by (rule exI [of _ w'], rule exI [of _ D'], intro conjI r handed_over_notices [OF r(2), THEN conjunct1]
        handed_over_notices [OF r(2), THEN conjunct2])
next
  fix P DP
  assume "variables w this = Some P \<and> domains w (m_domain P) = Some DP"
  then have a: "variables w this = Some P" and b: "domains w (m_domain P) = Some DP" by simp_all
  from move_assign_statements_hands_over [OF assms(3) a assms(1) b assms(2)] obtain w' D' where
    r: "move_assign_statements this other w = Inr w'" "handed_over w' this other Q D'" by blast
  show "\<exists>w' D'. move_assign_statements this other w = Inr w' \<and> handed_over w' this other Q D'
         \<and> (\<forall>t vs'. domain_deletionNotice t D' (variables w') = Inr vs' \<longrightarrow>
               vs' this = Some (deletionNotice t Q) \<and> vs' other = variables w' other)
         \<and> (\<forall>t r vs'. domain_replacementNotice t r D' (variables w') = Inr vs' \<longrightarrow>
               vs' this = Some (replacementNotice t r Q) \<and> vs' other = variables w' other)"
    by (rule exI [of _ w'], rule exI [of _ D'], intro conjI r handed_over_notices [OF r(2), THEN conjunct1]
        handed_over_notices [OF r(2), THEN conjunct2])
qed

lemma move_statements_transfer_binding_example:
  "variables example_world 0 = Some \<lparr>m_domain = 0, m_value = Node 1\<rparr>
   \<and> domains example_world 0 = Some example_domain
   \<and> variables example_world 3 = None
   \<and> variables example_world 2 = Some \<lparr>m_domain = 0, m_value = Node 0\<rparr>
   \<and> (\<exists>w' D'. move_construct 3 0 example_world = Inr w'
         \<and> handed_over w' 3 0 \<lparr>m_domain = 0, m_value = Node 1\<rparr> D')
   \<and> (\<exists>w' D'. move_assign_statements 2 0 example_world = Inr w'
         \<and> handed_over w' 2 0 \<lparr>m_domain = 0, m_value = Node 1\<rparr> D')"
proof -
  have h1: "variables example_world 0 = Some \<lparr>m_domain = 0, m_value = Node 1\<rparr>"
    and h2: "domains example_world (m_domain \<lparr>m_domain = 0, m_value = Node 1\<rparr>) = Some example_domain"
    and h3: "variables example_world 3 = None"
    and h4: "variables example_world 2 = Some \<lparr>m_domain = 0, m_value = Node 0\<rparr>"
    and h5: "domains example_world (m_domain \<lparr>m_domain = 0, m_value = Node 0\<rparr>) = Some example_domain"
    by (simp_all add: example_world_def)
  have a: "\<exists>w' D'. move_construct 3 0 example_world = Inr w'
         \<and> handed_over w' 3 0 \<lparr>m_domain = 0, m_value = Node 1\<rparr> D'"
  proof -
    have "(3::nat) \<noteq> 0" by simp
    from move_statements_transfer_binding [OF h1 h2 this] h3 show ?thesis by blast
  qed
  have b: "\<exists>w' D'. move_assign_statements 2 0 example_world = Inr w'
         \<and> handed_over w' 2 0 \<lparr>m_domain = 0, m_value = Node 1\<rparr> D'"
  proof -
    have "(2::nat) \<noteq> 0" by simp
    from move_statements_transfer_binding [OF h1 h2 this] h4 h5 show ?thesis by blast
  qed
  from h1 h2 h3 h4 a b show ?thesis by simp
qed

section \<open>Destroying a domain\<close>

text \<open>
  In every store reached from the empty store by a program that moves no domain,
  destroying a live domain that still has registered variables ends in
  \<^verbatim>\<open>std::logic_error\<close>, and destroying a live domain to which no live variable is bound
  succeeds: the destructor of a variable takes it off the list, so the list is empty by
  then.  A program that moves a domain is another matter: see C5 below.
\<close>

lemma domain_destruction_without_domain_move:
  assumes "moves_no_domain program"
    and "run eq_iter cmp program empty_world = Inr w"
    and "domains w d = Some D"
  shows "(m_managed_variables D \<noteq> [] \<longrightarrow> destroy_domain d w = Inl LogicError)
    \<and> ((\<forall>p P. variables w p = Some P \<longrightarrow> m_domain P \<noteq> d) \<longrightarrow>
          (\<exists>w'. destroy_domain d w = Inr w' \<and> domains w' d = None))"
proof (intro conjI impI)
  assume "m_managed_variables D \<noteq> []"
  then show "destroy_domain d w = Inl LogicError"
    using assms(3) by (simp add: destroy_domain_def)
next
  assume none: "\<forall>p P. variables w p = Some P \<longrightarrow> m_domain P \<noteq> d"
  have "subscribers_bound w" by (rule bound_run [OF assms(1) bound_empty assms(2)])
  have "p \<notin> set (m_managed_variables D)" for p
  proof
    assume "p \<in> set (m_managed_variables D)"
    with \<open>subscribers_bound w\<close> assms(3) obtain P where "variables w p = Some P" "m_domain P = d"
      unfolding subscribers_bound_def by (metis (no_types))
    with none show False by blast
  qed
  then have "m_managed_variables D = []" by (cases "m_managed_variables D") auto
  then show "\<exists>w'. destroy_domain d w = Inr w' \<and> domains w' d = None"
    using assms(3) by (simp add: destroy_domain_def)
qed

lemma domain_destruction_example:
  "run (\<lambda>v it. False) (<) example_program empty_world = Inr example_world
   \<and> domains example_world 0 = Some example_domain
   \<and> m_managed_variables example_domain \<noteq> []
   \<and> destroy_domain 0 example_world = Inl LogicError
   \<and> run (\<lambda>v it. False) (<) teardown_program empty_world = Inr torn_down_world
   \<and> domains torn_down_world 0 = Some \<lparr>m_allowed_values = [0, 1, 2], m_managed_variables = []\<rparr>
   \<and> variables torn_down_world = Map.empty
   \<and> (\<exists>w'. destroy_domain 0 torn_down_world = Inr w' \<and> domains w' 0 = None)"
proof -
  have h1: "domains example_world 0 = Some example_domain" by (simp add: example_world_def)
  have h2: "m_managed_variables example_domain \<noteq> []" by (simp add: example_domain_def)
  have h3: "domains torn_down_world 0 = Some \<lparr>m_allowed_values = [0, 1, 2], m_managed_variables = []\<rparr>"
    by (simp add: torn_down_world_def)
  have h4: "\<forall>p P. variables torn_down_world p = Some P \<longrightarrow> m_domain P \<noteq> 0"
    by (simp add: torn_down_world_def)
  have m1: "moves_no_domain example_program"
    and m2: "moves_no_domain teardown_program"
    by (simp_all add: moves_no_domain_def teardown_program_def example_program_def)
  from domain_destruction_without_domain_move [OF m1 example_world_reachable h1] h2
  have a: "destroy_domain 0 example_world = Inl LogicError" by blast
  from domain_destruction_without_domain_move [OF m2 torn_down_world_reachable h3] h4
  have b: "\<exists>w'. destroy_domain 0 torn_down_world = Inr w' \<and> domains w' 0 = None" by blast
  have h5: "variables torn_down_world = Map.empty" by (simp add: torn_down_world_def)
  from example_world_reachable torn_down_world_reachable h1 h2 h3 h5 a b show ?thesis by blast
qed

section \<open>Where the code departs from the specification\<close>

text \<open>
  C4.  Specified: when the new value already equals an element of the domain and the
  old value is present, \<^verbatim>\<open>replaceAllowedValue\<close> reuses the existing element, and every
  variable that was bound to the old value resolves to that stored element afterwards.
  This covers every such replacement, the one of a value by itself included.  On the domain \<open>{1, 2, 3}\<close> with two variables bound to 2,
  \<^verbatim>\<open>replaceAllowedValue(2, 2)\<close> returns true and leaves the domain \<open>{1, 3}\<close>: the
  existing node of 2 is reused and then erased, and the variable at address 0 keeps the
  address of the erased node, so it resolves to no stored element.  (For values that
  differ under the ordering the identity is merged as claimed:
  \<open>replaceAllowedValue_merges_identity\<close>.)
\<close>

theorem replace_onto_itself_loses_element:
  "(case replaceAllowedValue (<) 0 2 2 example_world of
      Inl e \<Rightarrow> False
    | Inr (r, w') \<Rightarrow>
        (case domains w' 0 of
           None \<Rightarrow> False
         | Some D' \<Rightarrow>
             r \<and> isAllowedValue (<) (heap w') D' 1 \<and> \<not> isAllowedValue (<) (heap w') D' 2
             \<and> isAllowedValue (<) (heap w') D' 3
             \<and> variables w' 0 = Some \<lparr>m_domain = 0, m_value = Node 1\<rparr>
             \<and> 1 \<notin> set (m_allowed_values D')
             \<and> operator_value_type w' \<lparr>m_domain = 0, m_value = Node 1\<rparr> = Inl UndefinedBehaviour))"
  by (simp add: eval_defs)

text \<open>
  C3.  Specified: \<^verbatim>\<open>removeAllowedValue\<close> returns true exactly when the value was
  present, then empties the variables bound to it and removes it, and returns false
  without changing anything when the value is absent.  The guard of the code tests \<^verbatim>\<open>value == m_allowed_values.end()\<close>
  instead of \<^verbatim>\<open>iter == m_allowed_values.end()\<close>.  With a comparison that is never
  true, removing the absent value 4 from \<open>{1, 2, 3}\<close> passes the guard and erases the
  past-the-end position instead of returning false; with a comparison that is true,
  removing the present value 2 returns false and removes nothing.  (With the guard that
  \<^verbatim>\<open>replaceAllowedValue\<close> uses, the claim holds:
  \<open>removeAllowedValue_intended_guard\<close>.)
\<close>

theorem remove_guard_tests_value:
  "removeAllowedValue (\<lambda>v it. False) (<) 0 4 example_world = Inl UndefinedBehaviour
   \<and> \<not> isAllowedValue (<) (heap example_world) example_domain 4
   \<and> removeAllowedValue (\<lambda>v it. True) (<) 0 2 example_world = Inr (False, example_world)
   \<and> isAllowedValue (<) (heap example_world) example_domain 2"
  by (simp add: eval_defs)

text \<open>
  C7.  Specified: constructing a variable with, or assigning to it, a value that is not
  in its domain leaves the variable empty (\<^verbatim>\<open>has_value\<close> false), registered and bound
  to the same domain.  The value 4 is not in \<open>{1, 2, 3}\<close>.  Constructing a variable with the initial
  value 4, and the statement of the assignment of 4 to a bound variable, store the
  past-the-end position of the set in \<^verbatim>\<open>m_value\<close>; \<^verbatim>\<open>has_value\<close> compares with
  \<^verbatim>\<open>nullptr\<close> and returns true.  The variable is registered and stays bound to the
  same domain.  The assignment operator then flows off its end without a
  \<^verbatim>\<open>return\<close>, so the call as a whole has no defined result.
\<close>

theorem lookup_miss_has_value:
  "\<not> isAllowedValue (<) (heap example_world) example_domain 4
   \<and> (case construct_value (<) 3 0 4 example_world of
        Inl e \<Rightarrow> False
      | Inr w' \<Rightarrow>
          (case variables w' 3 of
             None \<Rightarrow> False
           | Some P \<Rightarrow> has_value P \<and> m_value P = EndOf 0 \<and> m_domain P = 0)
          \<and> (case domains w' 0 of
               None \<Rightarrow> False
             | Some D' \<Rightarrow> 3 \<in> set (m_managed_variables D')))
   \<and> assign_value (<) 2 4 example_world = Inl UndefinedBehaviour
   \<and> (case assign_value_statements (<) 2 4 example_world of
        Inl e \<Rightarrow> False
      | Inr w' \<Rightarrow>
          (case variables w' 2 of
             None \<Rightarrow> False
           | Some P \<Rightarrow> has_value P \<and> m_value P = EndOf 0 \<and> m_domain P = 0)
          \<and> (case domains w' 0 of
               None \<Rightarrow> False
             | Some D' \<Rightarrow> 2 \<in> set (m_managed_variables D')))"
  by (simp add: eval_defs)

text \<open>
  C1.  Specified (invariants I1 and I3): after every operation of every program, each
  registered variable is empty or points at an element of its domain's set.  The program
  that builds the domain \<open>{1, 2, 3}\<close>, binds variables to 2, 2 and 1
  and then calls \<^verbatim>\<open>replaceAllowedValue(2, 2)\<close> runs without error and ends in a store
  where the registered variable at address 0 is not empty and points at a node that is
  no longer in the set of its domain.
\<close>

theorem invariant_broken_by_self_replacement:
  "(case run (\<lambda>v it. False) (<) (example_program @ [ReplaceAllowedValue 0 2 2]) empty_world of
      Inl e \<Rightarrow> False
    | Inr w \<Rightarrow> \<not> slot_valid w 0)"
  by (simp add: example_program_def empty_world_def new_domain_def slot_valid_def eval_defs eval_nat_numeral)

text \<open>
  C6.  Specified: move construction and move assignment hand the source's pointer and
  domain over to the destination, leave the source empty and unregistered, and leave the
  destination registered.  The move constructor does so (first conjunct, moving the
  variable at 0 into a new one at 3).  The move assignment runs statements that do so
  (third conjunct, moving the variable at 0 into the one at 2) and then reaches the end
  of \<^verbatim>\<open>operator=\<close>, which is declared to return a reference and has no
  \<^verbatim>\<open>return\<close> statement: the call has no defined result (second conjunct).
\<close>

theorem move_assignment_has_no_defined_result:
  "(case move_construct 3 0 example_world of
      Inl e \<Rightarrow> False
    | Inr w' \<Rightarrow>
        (case domains w' 0 of
           None \<Rightarrow> False
         | Some D' \<Rightarrow> handed_over w' 3 0 \<lparr>m_domain = 0, m_value = Node 1\<rparr> D'))
   \<and> move_assign 2 0 example_world = Inl UndefinedBehaviour
   \<and> (case move_assign_statements 2 0 example_world of
        Inl e \<Rightarrow> False
      | Inr w' \<Rightarrow>
          (case domains w' 0 of
             None \<Rightarrow> False
           | Some D' \<Rightarrow> handed_over w' 2 0 \<lparr>m_domain = 0, m_value = Node 1\<rparr> D'))"
  by (simp add: move_construct_def move_assign_statements_def handed_over_def unsubscribeVariable_def
      eval_defs)

text \<open>
  C5.  Specified: destroying a domain with registered variables is refused with an
  error, and destroying a domain after all variables bound to it have been destroyed
  succeeds.  The program builds the domain \<open>{1, 2, 3}\<close> at address 0, binds a variable
  to 2, move-constructs a domain at address 1 from the one at 0 and destroys the
  variable.  The destructor of the variable unsubscribes from the domain it refers to,
  the moved-from one at 0; the list of the domain at 1 still holds the address of the
  destroyed variable.  No variable is left, and destroying the domain at 1 throws
  \<^verbatim>\<open>std::logic_error\<close>.
\<close>

theorem moved_domain_destructor_throws:
  "(case run (\<lambda>v it. False) (<) moved_domain_program empty_world of
      Inl e \<Rightarrow> False
    | Inr w \<Rightarrow>
        variables w = Map.empty
        \<and> (case domains w 1 of
             None \<Rightarrow> False
           | Some D \<Rightarrow> m_managed_variables D = [0])
        \<and> destroy_domain 1 w = Inl LogicError)"
  by (simp add: moved_domain_program_def empty_world_def new_domain_def move_domain_def
      destroy_variable_def destroy_domain_def unsubscribeVariable_def eval_defs eval_nat_numeral)

end
